theory Spec2Isabelle
  imports Main
begin

section \<open>The tree of network hosts and its text rendering\<close>

text \<open>
  The program (\<^verbatim>\<open>src/main.py\<close>) has six classes that share the base class
  \<^verbatim>\<open>Node\<close>: \<^verbatim>\<open>Cpu\<close>, \<^verbatim>\<open>Memory\<close>, \<^verbatim>\<open>Partition\<close>, \<^verbatim>\<open>Disk\<close>, \<^verbatim>\<open>Host\<close> and
  \<^verbatim>\<open>Network\<close>. The child collections are plain Python lists, so any node may be
  appended to any of them; the datatype keeps that freedom. Integer attributes are
  unbounded (\<^typ>\<open>int\<close>), text attributes are strings.
\<close>

subsection \<open>Data model\<close>

datatype node =
    Cpu int int
  | Memory int
  | Partition int int string
  | Disk int "node list"
  | Host string "string list" "node list"
  | Network string "node list"

subsection \<open>Errors\<close>

text \<open>
  The exceptions that the program can raise: \<^verbatim>\<open>AttributeError\<close> when an attribute
  is read from an object that does not have it, and \<^verbatim>\<open>ValueError\<close> when an integer
  is too long to be converted to text.
\<close>

datatype error = AttributeError | ValueError

subsection \<open>Formatting of integers\<close>

text \<open>
  An f-string field \<^verbatim>\<open>{self.cores}\<close> formats an integer in decimal, with a leading
  minus sign for a negative value and no padding. \<open>str_int\<close> is the text of the
  integer.
\<close>

definition digit_char :: "nat \<Rightarrow> char" where
  "digit_char d = ''0123456789'' ! d"

function str_nat :: "nat \<Rightarrow> string" where
  "str_nat n = (if n < 10 then [digit_char n] else str_nat (n div 10) @ [digit_char (n mod 10)])"
  by pat_completeness auto
termination
  by (relation "measure (\<lambda>n. n)") auto

declare str_nat.simps [simp del]

definition str_int :: "int \<Rightarrow> string" where
  "str_int i = (if i < 0 then CHR ''-'' # str_nat (nat (- i)) else str_nat (nat i))"

text \<open>
  The interpreter refuses to convert an integer to decimal text when the text, without its
  sign, has more digits than \<^verbatim>\<open>sys.get_int_max_str_digits()\<close>, 4300 unless the
  program or its environment changes it, which this program does not. The conversion then
  raises \<^verbatim>\<open>ValueError\<close>. \<open>format_int\<close> is the formatting of an f-string field with
  that check.
\<close>

definition max_str_digits :: nat where
  "max_str_digits = 4300"

definition format_int :: "int \<Rightarrow> error + string" where
  "format_int i =
     (if max_str_digits < length (str_nat (nat \<bar>i\<bar>)) then Inl ValueError else Inr (str_int i))"

subsection \<open>Rendering\<close>

text \<open>
  The connector \<^verbatim>\<open>'\\-' if is_last else '+-'\<close> that every line but the network's
  carries, and the prefix \<^verbatim>\<open>prefix + ("  " if is_last else "| ")\<close> that
  \<^verbatim>\<open>Disk._render\<close> and \<^verbatim>\<open>Host._render\<close> compute for their children.
\<close>

definition connector :: "bool \<Rightarrow> string" where
  "connector is_last = (if is_last then [CHR 0x5C, CHR ''-''] else ''+-'')"

definition sub_prefix :: "string \<Rightarrow> bool \<Rightarrow> string" where
  "sub_prefix prefix is_last = prefix @ (if is_last then ''  '' else ''| '')"

text \<open>
  \<^verbatim>\<open>Cpu._render\<close> with the error of the formatting: the f-string formats
  \<^verbatim>\<open>self.cores\<close>, then \<^verbatim>\<open>self.mhz\<close>, and the line is yielded if both have
  a text.
\<close>

definition cpu_render :: "int \<Rightarrow> int \<Rightarrow> string \<Rightarrow> bool \<Rightarrow> error + string list" where
  "cpu_render cores mhz prefix is_last =
     (case format_int cores of
        Inl e \<Rightarrow> Inl e
      | Inr c \<Rightarrow>
         (case format_int mhz of
            Inl e \<Rightarrow> Inl e
          | Inr m \<Rightarrow>
              Inr [prefix @ (if is_last then [CHR 0x5C, CHR ''-''] else ''+-'')
                     @ ''CPU, '' @ c @ '' cores @ '' @ m @ ''MHz'']))"

text \<open>
  The address loop of \<^verbatim>\<open>Host._render\<close>:
  \<^verbatim>\<open>for idx, ip in enumerate(self.addrs):
      last_here = idx == total - 1 and not self.hw
      yield f"{sub}{'\\-' if last_here else '+-'}{ip}"\<close>
  with \<open>idx\<close> the running index, \<open>tot\<close> (the source's \<^verbatim>\<open>total\<close>) the sum of both lengths and
  \<open>hw_empty\<close> the truth value of \<^verbatim>\<open>not self.hw\<close>.
\<close>

fun render_addrs :: "string \<Rightarrow> int \<Rightarrow> bool \<Rightarrow> int \<Rightarrow> string list \<Rightarrow> string list" where
  "render_addrs sub tot hw_empty idx [] = []"
| "render_addrs sub tot hw_empty idx (ip # ips) =
     (sub @ connector (idx = tot - 1 \<and> hw_empty) @ ip)
       # render_addrs sub tot hw_empty (idx + 1) ips"

text \<open>
  \<open>render\<close> is \<^verbatim>\<open>_render\<close>; the generator's yields are collected in a list. It
  gives the lines of a rendering in which every integer has a text.
  \<open>render_each\<close> is the loop that \<^verbatim>\<open>Disk\<close>, \<^verbatim>\<open>Host\<close> and \<^verbatim>\<open>Network\<close> all run
  over a child list,
  \<^verbatim>\<open>for i, c in enumerate(children):
      yield from c._render(sub, i == len(children) - 1)\<close>
  with \<open>n\<close> the length of the whole list and \<open>i\<close> the running index.
\<close>

fun render :: "node \<Rightarrow> string \<Rightarrow> bool \<Rightarrow> string list"
  and render_each :: "string \<Rightarrow> int \<Rightarrow> int \<Rightarrow> node list \<Rightarrow> string list" where
  "render (Cpu cores mhz) prefix is_last =
     [prefix @ connector is_last @ ''CPU, '' @ str_int cores @ '' cores @ '' @ str_int mhz @ ''MHz'']"
| "render (Memory mib) prefix is_last =
     [prefix @ connector is_last @ ''Memory, '' @ str_int mib @ '' MiB'']"
| "render (Partition index gib role) prefix is_last =
     [prefix @ connector is_last @ ''['' @ str_int index @ '']: '' @ str_int gib @ '' GiB, '' @ role]"
| "render (Disk gib parts) prefix is_last =
     (prefix @ connector is_last @ ''HDD, '' @ str_int gib @ '' GiB'')
       # render_each (sub_prefix prefix is_last) (int (length parts)) 0 parts"
| "render (Host name addrs hw) prefix is_last =
     (prefix @ connector is_last @ ''Host: '' @ name)
       # render_addrs (sub_prefix prefix is_last) (int (length addrs) + int (length hw)) (hw = []) 0 addrs
       @ render_each (sub_prefix prefix is_last) (int (length hw)) 0 hw"
| "render (Network title hosts) prefix is_last =
     (''Network: '' @ title) # render_each [] (int (length hosts)) 0 hosts"
| "render_each sub n i [] = []"
| "render_each sub n i (c # cs) = render c sub (i = n - 1) @ render_each sub n (i + 1) cs"

text \<open>
  \<^verbatim>\<open>Node.draw\<close>: every rendered line is written to the buffer followed by a
  newline, and the buffer's content is returned. \<open>write_lines\<close> is the loop over the
  lines with the buffer as its state.
\<close>

fun write_lines :: "string \<Rightarrow> string list \<Rightarrow> string" where
  "write_lines buf [] = buf"
| "write_lines buf (line # lines) = write_lines (buf @ line @ [CHR 0x0A]) lines"

definition draw :: "node \<Rightarrow> string" where
  "draw n = write_lines [] (render n [] True)"

subsection \<open>Search\<close>

text \<open>
  \<^verbatim>\<open>Network.find_host\<close> reads \<^verbatim>\<open>h.name\<close> of every element it visits. Only a
  \<^verbatim>\<open>Host\<close> has that attribute; on any other node the read raises
  \<^verbatim>\<open>AttributeError\<close>, as does the call of \<^verbatim>\<open>find_host\<close> on a node that is not a
  \<^verbatim>\<open>Network\<close>. The absent result \<^verbatim>\<open>None\<close> is \<^term>\<open>Inr None\<close>.
\<close>

fun name_attr :: "node \<Rightarrow> error + string" where
  "name_attr (Host name addrs hw) = Inr name"
| "name_attr _ = Inl AttributeError"

fun find_host_loop :: "node list \<Rightarrow> string \<Rightarrow> error + node option" where
  "find_host_loop [] fqdn = Inr None"
| "find_host_loop (h # hs) fqdn =
     (case name_attr h of
        Inl e \<Rightarrow> Inl e
      | Inr name \<Rightarrow> if name = fqdn then Inr (Some h) else find_host_loop hs fqdn)"

fun find_host :: "node \<Rightarrow> string \<Rightarrow> error + node option" where
  "find_host (Network title hosts) fqdn = find_host_loop hosts fqdn"
| "find_host _ fqdn = Inl AttributeError"

subsection \<open>Notions of the specification\<close>

text \<open>The number that a string of decimal digits denotes.\<close>

definition decimal_value :: "string \<Rightarrow> nat" where
  "decimal_value s = foldl (\<lambda>n c. 10 * n + (of_char c - 48)) 0 s"

text \<open>
  The decimal form of an integer: for a natural number, a string of digits that is not
  empty, denotes the number and starts with the digit 0 only if it is the string \<open>0\<close>;
  for a negative number, a minus sign followed by the decimal form of its absolute value.
\<close>

definition is_digit :: "char \<Rightarrow> bool" where
  "is_digit c = (c \<in> set ''0123456789'')"

definition canonical :: "string \<Rightarrow> bool" where
  "canonical ds = (ds \<noteq> [] \<and> list_all is_digit ds \<and> (ds = ''0'' \<or> hd ds \<noteq> CHR ''0''))"

definition decimal_form :: "int \<Rightarrow> string \<Rightarrow> bool" where
  "decimal_form i s =
     (if i < 0
      then s \<noteq> [] \<and> hd s = CHR ''-'' \<and> canonical (tl s) \<and> int (decimal_value (tl s)) = - i
      else canonical s \<and> int (decimal_value s) = i)"

text \<open>
  The lines that a list of children contributes when every child is rendered with the
  prefix \<open>sub\<close> and is told that it is the last sibling exactly when it is the final
  element of the list.
\<close>

definition child_lines :: "node list \<Rightarrow> string \<Rightarrow> string list" where
  "child_lines cs sub =
     concat (map (\<lambda>k. render (cs ! k) sub (Suc k = length cs)) [0..<length cs])"

text \<open>The number of nodes of a tree, and the number of address strings it holds.\<close>

fun node_count :: "node \<Rightarrow> nat" where
  "node_count (Cpu cores mhz) = 1"
| "node_count (Memory mib) = 1"
| "node_count (Partition index gib role) = 1"
| "node_count (Disk gib parts) = 1 + sum_list (map node_count parts)"
| "node_count (Host name addrs hw) = 1 + sum_list (map node_count hw)"
| "node_count (Network title hosts) = 1 + sum_list (map node_count hosts)"

fun addr_count :: "node \<Rightarrow> nat" where
  "addr_count (Cpu cores mhz) = 0"
| "addr_count (Memory mib) = 0"
| "addr_count (Partition index gib role) = 0"
| "addr_count (Disk gib parts) = sum_list (map addr_count parts)"
| "addr_count (Host name addrs hw) = length addrs + sum_list (map addr_count hw)"
| "addr_count (Network title hosts) = sum_list (map addr_count hosts)"

text \<open>
  The tally of lines as the specification words it, variant by variant: a leaf has one
  line, a disk one more than it has partitions, a host one more than it has addresses plus
  the lines of its hardware, a network one more than the lines of its hosts.
\<close>

fun line_count :: "node \<Rightarrow> nat" where
  "line_count (Cpu cores mhz) = 1"
| "line_count (Memory mib) = 1"
| "line_count (Partition index gib role) = 1"
| "line_count (Disk gib parts) = 1 + length parts"
| "line_count (Host name addrs hw) = 1 + length addrs + sum_list (map line_count hw)"
| "line_count (Network title hosts) = 1 + sum_list (map line_count hosts)"

text \<open>
  The data model lets a disk hold partitions only and a network hosts only. The program
  does not enforce it, so where a statement depends on it, it is a hypothesis.
\<close>

fun is_partition :: "node \<Rightarrow> bool" where
  "is_partition (Partition index gib role) = True"
| "is_partition _ = False"

fun is_host :: "node \<Rightarrow> bool" where
  "is_host (Host name addrs hw) = True"
| "is_host _ = False"

fun disks_hold_partitions :: "node \<Rightarrow> bool" where
  "disks_hold_partitions (Cpu cores mhz) = True"
| "disks_hold_partitions (Memory mib) = True"
| "disks_hold_partitions (Partition index gib role) = True"
| "disks_hold_partitions (Disk gib parts) = list_all is_partition parts"
| "disks_hold_partitions (Host name addrs hw) = list_all disks_hold_partitions hw"
| "disks_hold_partitions (Network title hosts) = list_all disks_hold_partitions hosts"

section \<open>Objects, references and cloning\<close>

text \<open>
  \<^verbatim>\<open>Node.clone\<close> is \<^verbatim>\<open>copy.deepcopy(self)\<close>. What it promises is about
  identity and mutation, so it is stated over a store of objects. An address is the
  identity of an object. Integers and strings are immutable in Python; they are values
  inside the object that holds them. A list is an object of its own, holding strings or
  references; an instance of \<^verbatim>\<open>Disk\<close>, \<^verbatim>\<open>Host\<close> or \<^verbatim>\<open>Network\<close> refers to its lists
  by address. \<open>OBlank\<close> is an instance that has no attribute yet, as \<^verbatim>\<open>deepcopy\<close>
  creates it before it fills it in.
\<close>

subsection \<open>The store\<close>

type_synonym addr = nat

datatype val = Str string | Ref addr

datatype obj =
    OCpu int int
  | OMemory int
  | OPartition int int string
  | ODisk int addr
  | OHost string addr addr
  | ONetwork string addr
  | OList "val list"
  | OBlank

text \<open>
  The store is the list of all objects ever allocated; the address of an object is its
  position. Allocation appends, and nothing is ever freed.
\<close>

type_synonym heap = "obj list"

definition lookup :: "heap \<Rightarrow> addr \<Rightarrow> obj option" where
  "lookup h a = (if a < length h then Some (h ! a) else None)"

text \<open>\<^verbatim>\<open>y.append(v)\<close> on the list object at \<open>y\<close>.\<close>

definition list_append :: "heap \<Rightarrow> addr \<Rightarrow> val \<Rightarrow> heap" where
  "list_append h y v = (case lookup h y of Some (OList ws) \<Rightarrow> h[y := OList (ws @ [v])] | _ \<Rightarrow> h)"

subsection \<open>Deep copy\<close>

text \<open>
  \<^verbatim>\<open>copy.deepcopy(x, memo)\<close>, as the standard library defines it for the objects of
  this program. The memo maps the identity of every object met so far to its copy; an
  object found there is not copied again, so an object that is reached twice is copied
  once. An instance is copied by creating a blank instance, recording it in the memo,
  copying the attribute values in the order of their creation, and setting them on the
  new instance. A list is copied by creating an empty list, recording it in the memo, and
  appending the copy of every element in turn (\<open>deepcopy_elems\<close>, the loop of
  \<^verbatim>\<open>_deepcopy_list\<close>). Integers and strings are returned as they are. The first
  argument bounds the depth of the recursion: with too little of it the result is
  \<open>None\<close>.
\<close>

type_synonym memo = "addr \<rightharpoonup> addr"

fun deepcopy :: "nat \<Rightarrow> heap \<Rightarrow> memo \<Rightarrow> addr \<Rightarrow> (heap \<times> memo \<times> addr) option"
  and deepcopy_elems :: "nat \<Rightarrow> heap \<Rightarrow> memo \<Rightarrow> addr \<Rightarrow> val list \<Rightarrow> (heap \<times> memo) option" where
  "deepcopy 0 h memo x = None"
| "deepcopy (Suc k) h memo x =
     (case memo x of
        Some y \<Rightarrow> Some (h, memo, y)
      | None \<Rightarrow>
         (case lookup h x of
            None \<Rightarrow> None
          | Some (OCpu cores mhz) \<Rightarrow> Some (h @ [OCpu cores mhz], memo(x \<mapsto> length h), length h)
          | Some (OMemory mib) \<Rightarrow> Some (h @ [OMemory mib], memo(x \<mapsto> length h), length h)
          | Some (OPartition index gib role) \<Rightarrow>
              Some (h @ [OPartition index gib role], memo(x \<mapsto> length h), length h)
          | Some OBlank \<Rightarrow> Some (h @ [OBlank], memo(x \<mapsto> length h), length h)
          | Some (OList vs) \<Rightarrow>
              (case deepcopy_elems k (h @ [OList []]) (memo(x \<mapsto> length h)) (length h) vs of
                 None \<Rightarrow> None
               | Some (h', memo') \<Rightarrow> Some (h', memo', length h))
          | Some (ODisk gib parts) \<Rightarrow>
              (case deepcopy k (h @ [OBlank]) (memo(x \<mapsto> length h)) parts of
                 None \<Rightarrow> None
               | Some (h', memo', parts') \<Rightarrow>
                   Some (h'[length h := ODisk gib parts'], memo', length h))
          | Some (OHost name addrs hw) \<Rightarrow>
              (case deepcopy k (h @ [OBlank]) (memo(x \<mapsto> length h)) addrs of
                 None \<Rightarrow> None
               | Some (h1, memo1, addrs') \<Rightarrow>
                  (case deepcopy k h1 memo1 hw of
                     None \<Rightarrow> None
                   | Some (h2, memo2, hw') \<Rightarrow>
                       Some (h2[length h := OHost name addrs' hw'], memo2, length h)))
          | Some (ONetwork title hosts) \<Rightarrow>
              (case deepcopy k (h @ [OBlank]) (memo(x \<mapsto> length h)) hosts of
                 None \<Rightarrow> None
               | Some (h', memo', hosts') \<Rightarrow>
                   Some (h'[length h := ONetwork title hosts'], memo', length h))))"
| "deepcopy_elems k h memo y [] = Some (h, memo)"
| "deepcopy_elems k h memo y (Str s # vs) = deepcopy_elems k (list_append h y (Str s)) memo y vs"
| "deepcopy_elems k h memo y (Ref a # vs) =
     (case deepcopy k h memo a of
        None \<Rightarrow> None
      | Some (h', memo', a') \<Rightarrow> deepcopy_elems k (list_append h' y (Ref a')) memo' y vs)"

text \<open>\<^verbatim>\<open>Node.clone\<close>: a deep copy that starts with an empty memo.\<close>

definition clone :: "nat \<Rightarrow> heap \<Rightarrow> addr \<Rightarrow> (heap \<times> addr) option" where
  "clone k h a = (case deepcopy k h Map.empty a of None \<Rightarrow> None | Some (h', memo', a') \<Rightarrow> Some (h', a'))"

subsection \<open>Trees in the store\<close>

text \<open>
  \<open>tree_at h a t fp\<close>: read from address \<open>a\<close> of the store \<open>h\<close>, the way
  \<^verbatim>\<open>_render\<close> reads attributes and iterates over child lists, the objects make up
  the tree \<open>t\<close>; \<open>fp\<close> lists the addresses of all instances and lists read on the
  way. The list of addresses of a host holds strings, a list of children holds
  references. Nothing keeps two parents from holding the same child; its address is in
  \<open>fp\<close> twice then.
\<close>

inductive tree_at :: "heap \<Rightarrow> addr \<Rightarrow> node \<Rightarrow> addr list \<Rightarrow> bool"
  and trees_at :: "heap \<Rightarrow> val list \<Rightarrow> node list \<Rightarrow> addr list \<Rightarrow> bool" where
  cpu_at: "lookup h a = Some (OCpu cores mhz) \<Longrightarrow> tree_at h a (Cpu cores mhz) [a]"
| memory_at: "lookup h a = Some (OMemory mib) \<Longrightarrow> tree_at h a (Memory mib) [a]"
| partition_at: "lookup h a = Some (OPartition index gib role) \<Longrightarrow>
     tree_at h a (Partition index gib role) [a]"
| disk_at: "lookup h a = Some (ODisk gib l) \<Longrightarrow> lookup h l = Some (OList vs) \<Longrightarrow>
     trees_at h vs parts fp \<Longrightarrow> tree_at h a (Disk gib parts) (a # l # fp)"
| host_at: "lookup h a = Some (OHost name la lh) \<Longrightarrow> lookup h la = Some (OList (map Str addrs)) \<Longrightarrow>
     lookup h lh = Some (OList vs) \<Longrightarrow> trees_at h vs hw fp \<Longrightarrow>
     tree_at h a (Host name addrs hw) (a # la # lh # fp)"
| network_at: "lookup h a = Some (ONetwork title l) \<Longrightarrow> lookup h l = Some (OList vs) \<Longrightarrow>
     trees_at h vs hosts fp \<Longrightarrow> tree_at h a (Network title hosts) (a # l # fp)"
| none_at: "trees_at h [] [] []"
| more_at: "tree_at h a t fp \<Longrightarrow> trees_at h vs ts fps \<Longrightarrow>
     trees_at h (Ref a # vs) (t # ts) (fp @ fps)"

text \<open>
  \<^verbatim>\<open>Node.draw\<close> called on the object at \<open>a\<close> returns \<open>s\<close>: the text depends on
  the tree that the objects make up and on nothing else.
\<close>

definition draws :: "heap \<Rightarrow> addr \<Rightarrow> string \<Rightarrow> bool" where
  "draws h a s = (\<exists>t fp. tree_at h a t fp \<and> s = draw t)"

text \<open>A depth of recursion that is enough to copy a tree.\<close>

fun copy_fuel :: "node \<Rightarrow> nat" where
  "copy_fuel (Cpu cores mhz) = 1"
| "copy_fuel (Memory mib) = 1"
| "copy_fuel (Partition index gib role) = 1"
| "copy_fuel (Disk gib parts) = 2 + sum_list (map copy_fuel parts)"
| "copy_fuel (Host name addrs hw) = 2 + sum_list (map copy_fuel hw)"
| "copy_fuel (Network title hosts) = 2 + sum_list (map copy_fuel hosts)"

subsection \<open>The invariant of the copy\<close>

text \<open>
  The addresses an object refers to, and the object with every reference replaced by what
  the memo holds for it.
\<close>

fun refs_val :: "val \<Rightarrow> addr set" where
  "refs_val (Str s) = {}"
| "refs_val (Ref a) = {a}"

fun refs_of :: "obj \<Rightarrow> addr set" where
  "refs_of (ODisk gib parts) = {parts}"
| "refs_of (OHost name addrs hw) = {addrs, hw}"
| "refs_of (ONetwork title hosts) = {hosts}"
| "refs_of (OList vs) = (\<Union>v \<in> set vs. refs_val v)"
| "refs_of _ = {}"

fun map_val :: "memo \<Rightarrow> val \<Rightarrow> val" where
  "map_val m (Str s) = Str s"
| "map_val m (Ref a) = Ref (the (m a))"

fun map_obj :: "memo \<Rightarrow> obj \<Rightarrow> obj" where
  "map_obj m (ODisk gib parts) = ODisk gib (the (m parts))"
| "map_obj m (OHost name addrs hw) = OHost name (the (m addrs)) (the (m hw))"
| "map_obj m (ONetwork title hosts) = ONetwork title (the (m hosts))"
| "map_obj m (OList vs) = OList (map (map_val m) vs)"
| "map_obj m v = v"

text \<open>
  While the store \<open>h\<close> is copied, the store \<open>H\<close> and the memo \<open>m\<close> are related as
  follows. \<open>H\<close> starts with \<open>h\<close>, unchanged. The memo maps objects of \<open>h\<close> to objects
  allocated since, no two to the same one. The set \<open>W\<close> holds the copies that are still
  being filled in; every other copy is finished: all that its original refers to is in
  the memo, and the copy is the original with its references replaced through the memo.
\<close>

definition copy_inv :: "heap \<Rightarrow> heap \<Rightarrow> memo \<Rightarrow> addr set \<Rightarrow> bool" where
  "copy_inv h H m W =
     (length h \<le> length H \<and> (\<forall>x < length h. H ! x = h ! x)
      \<and> (\<forall>x y. m x = Some y \<longrightarrow> x < length h \<and> length h \<le> y \<and> y < length H)
      \<and> (\<forall>x1 x2 y. m x1 = Some y \<and> m x2 = Some y \<longrightarrow> x1 = x2)
      \<and> (\<forall>x y. m x = Some y \<and> y \<notin> W \<longrightarrow> refs_of (h ! x) \<subseteq> dom m \<and> H ! y = map_obj m (h ! x)))"

text \<open>
  What a call of \<open>deepcopy\<close> on the object at \<open>x\<close> does: it returns, appends the
  cells \<open>zs\<close> and changes none, the address it returns is what the memo now holds for
  \<open>x\<close> (a new object if the memo had nothing for \<open>x\<close>), the memo has only grown, and
  the invariant holds again. \<open>elems_done\<close> says the same of the loop that appends the
  copies of the elements \<open>vs\<close> to the list at \<open>y\<close>, the only old cell that changes.
\<close>

definition cell_copied :: "heap \<Rightarrow> heap \<Rightarrow> memo \<Rightarrow> addr set \<Rightarrow> addr \<Rightarrow> nat \<Rightarrow> bool" where
  "cell_copied h H m W x k =
     (\<exists>zs m' y. deepcopy k H m x = Some (H @ zs, m', y) \<and> m' x = Some y
        \<and> (m x = None \<longrightarrow> y = length H) \<and> map_le m m' \<and> copy_inv h (H @ zs) m' W)"

definition elems_done ::
  "heap \<Rightarrow> heap \<Rightarrow> memo \<Rightarrow> addr set \<Rightarrow> addr \<Rightarrow> val list \<Rightarrow> val list \<Rightarrow> nat \<Rightarrow> bool" where
  "elems_done h H m W y ws vs k =
     (\<exists>zs m'. deepcopy_elems k H m y vs = Some (H[y := OList (ws @ map (map_val m') vs)] @ zs, m')
        \<and> map_le m m' \<and> (\<Union>v \<in> set vs. refs_val v) \<subseteq> dom m'
        \<and> copy_inv h (H[y := OList (ws @ map (map_val m') vs)] @ zs) m' W)"

subsection \<open>An example store\<close>

text \<open>
  A store built the way the program's driver builds a network, with one host that has one
  address and one CPU; the tree it holds at address 0; and the store after cloning it.
\<close>

definition demo_heap :: heap where
  "demo_heap = [ONetwork ''net'' 1, OList [Ref 2], OHost ''server1'' 3 4,
     OList [Str ''192.168.1.1''], OList [Ref 5], OCpu 4 2500]"

definition demo_tree :: node where
  "demo_tree = Network ''net'' [Host ''server1'' [''192.168.1.1''] [Cpu 4 2500]]"

definition demo_copy :: heap where
  "demo_copy = demo_heap @ [ONetwork ''net'' 7, OList [Ref 8], OHost ''server1'' 9 10,
     OList [Str ''192.168.1.1''], OList [Ref 11], OCpu 4 2500]"

section \<open>Properties of the rendering\<close>

subsection \<open>Iteration by index\<close>

lemma render_addrs_index:
  "render_addrs sub tot e idx ips =
     map (\<lambda>k. sub @ connector (idx + int k = tot - 1 \<and> e) @ ips ! k) [0..<length ips]"
proof (induction ips arbitrary: idx)
  case Nil
  show ?case by simp
next
  case (Cons ip ips)
  have "idx + 1 + int k = idx + int (Suc k)" for k by simp
  with Cons show ?case by (simp add: map_upt_Suc del: upt_Suc)
qed

lemma render_each_index:
  "render_each sub n i cs =
     concat (map (\<lambda>k. render (cs ! k) sub (i + int k = n - 1)) [0..<length cs])"
proof (induction cs arbitrary: i)
  case Nil
  show ?case by simp
next
  case (Cons c cs)
  have "i + 1 + int k = i + int (Suc k)" for k by simp
  with Cons show ?case by (simp add: map_upt_Suc del: upt_Suc)
qed

lemma last_index: "(int k = int n - 1) = (Suc k = n)"
  by auto

lemma render_each_child_lines:
  "render_each sub (int (length cs)) 0 cs = child_lines cs sub"
  by (simp add: render_each_index child_lines_def last_index)

lemma connector_last: "(connector b = [CHR 0x5C, CHR ''-'']) = b"
  by (simp add: connector_def)

lemmas eval_simps = connector_def sub_prefix_def str_int_def str_nat.simps digit_char_def

subsection \<open>Integers are formatted in decimal\<close>

lemma digit_char_value:
  assumes "d < 10"
  shows "of_char (digit_char d) - 48 = (d::nat)"
proof -
  from assms have "d \<in> {0, 1, 2, 3, 4, 5, 6, 7, 8, 9}" by auto
  then show ?thesis by (auto simp: digit_char_def)
qed

lemma decimal_value_str_nat: "decimal_value (str_nat n) = n"
proof (induction n rule: str_nat.induct)
  case (1 n)
  show ?case
  proof (cases "n < 10")
    case True
    then show ?thesis by (simp add: str_nat.simps [of n] decimal_value_def digit_char_value)
  next
    case False
    with 1 have "decimal_value (str_nat (n div 10)) = n div 10" by simp
    with False show ?thesis
      by (simp add: str_nat.simps [of n] decimal_value_def digit_char_value)
  qed
qed

lemma str_int_sign:
  "0 \<le> i \<Longrightarrow> str_int i = str_nat (nat i)"
  "i < 0 \<Longrightarrow> str_int i = CHR ''-'' # str_nat (nat (- i))"
  by (simp_all add: str_int_def)

text \<open>The text of an integer is its decimal form, and nothing else is.\<close>

lemma is_digit_cases:
  "is_digit c = (c = CHR ''0'' \<or> c = CHR ''1'' \<or> c = CHR ''2'' \<or> c = CHR ''3'' \<or> c = CHR ''4''
     \<or> c = CHR ''5'' \<or> c = CHR ''6'' \<or> c = CHR ''7'' \<or> c = CHR ''8'' \<or> c = CHR ''9'')"
  by (auto simp: is_digit_def)

lemma digit_char_is_digit:
  assumes "d < 10"
  shows "is_digit (digit_char d)" "(digit_char d = CHR ''0'') = (d = 0)"
proof -
  from assms have "d \<in> {0, 1, 2, 3, 4, 5, 6, 7, 8, 9}" by auto
  then show "is_digit (digit_char d)" "(digit_char d = CHR ''0'') = (d = 0)"
    by (auto simp: digit_char_def is_digit_def)
qed

lemma is_digit_value:
  assumes "is_digit c"
  shows "of_char c - 48 < (10::nat)" "digit_char (of_char c - 48) = c"
    "(of_char c - 48 = (0::nat)) = (c = CHR ''0'')"
  using assms by (auto simp: is_digit_cases digit_char_def)

lemma decimal_value_snoc: "decimal_value (ds @ [c]) = 10 * decimal_value ds + (of_char c - 48)"
  by (simp add: decimal_value_def)

lemma str_nat_nonempty: "str_nat n \<noteq> []"
  by (subst str_nat.simps) simp

lemma str_nat_small: "n < 10 \<Longrightarrow> str_nat n = [digit_char n]"
  by (subst str_nat.simps) simp

lemma str_nat_large: "\<not> n < 10 \<Longrightarrow> str_nat n = str_nat (n div 10) @ [digit_char (n mod 10)]"
  by (subst str_nat.simps) simp

lemma str_nat_digits: "list_all is_digit (str_nat n)"
proof (induction n rule: str_nat.induct)
  case (1 n)
  show ?case
  proof (cases "n < 10")
    case True
    then show ?thesis by (simp add: str_nat_small digit_char_is_digit)
  next
    case False
    with 1 show ?thesis by (simp add: str_nat_large digit_char_is_digit)
  qed
qed

lemma str_nat_hd: "0 < n \<Longrightarrow> hd (str_nat n) \<noteq> CHR ''0''"
proof (induction n rule: str_nat.induct)
  case (1 n)
  show ?case
  proof (cases "n < 10")
    case True
    with "1.prems" show ?thesis by (simp add: str_nat_small digit_char_is_digit)
  next
    case False
    then have "0 < n div 10" by simp
    with 1 False have "hd (str_nat (n div 10)) \<noteq> CHR ''0''" by simp
    with False show ?thesis by (simp add: str_nat_large str_nat_nonempty)
  qed
qed

lemma str_nat_canonical: "canonical (str_nat n)"
proof (cases "n = 0")
  case True
  then show ?thesis by (simp add: canonical_def str_nat_small digit_char_def is_digit_def)
next
  case False
  then show ?thesis by (simp add: canonical_def str_nat_nonempty str_nat_digits str_nat_hd)
qed

lemma decimal_value_pos:
  "ds \<noteq> [] \<Longrightarrow> list_all is_digit ds \<Longrightarrow> hd ds \<noteq> CHR ''0'' \<Longrightarrow> 0 < decimal_value ds"
proof (induction ds rule: rev_induct)
  case Nil
  then show ?case by simp
next
  case (snoc c ds)
  show ?case
  proof (cases "ds = []")
    case True
    with snoc.prems have "is_digit c" "c \<noteq> CHR ''0''" by simp_all
    then have "of_char c - 48 \<noteq> (0::nat)" using is_digit_value(3) [of c] by blast
    with True show ?thesis by (simp add: decimal_value_def)
  next
    case False
    with snoc have "0 < decimal_value ds" by simp
    then show ?thesis by (simp add: decimal_value_snoc)
  qed
qed

lemma canonical_str_nat: "canonical ds \<Longrightarrow> str_nat (decimal_value ds) = ds"
proof (induction ds rule: rev_induct)
  case Nil
  then show ?case by (simp add: canonical_def)
next
  case (snoc c ds)
  from snoc.prems have c: "is_digit c" and ds: "list_all is_digit ds"
    by (simp_all add: canonical_def)
  show ?case
  proof (cases "ds = []")
    case True
    with c show ?thesis by (simp add: decimal_value_def str_nat_small is_digit_value)
  next
    case False
    with snoc.prems have hd: "hd ds \<noteq> CHR ''0''" by (auto simp: canonical_def)
    with False ds have can: "canonical ds" and pos: "0 < decimal_value ds"
      by (simp_all add: canonical_def decimal_value_pos)
    let ?n = "10 * decimal_value ds + (of_char c - 48)"
    have "\<not> ?n < 10" using pos by simp
    moreover have "?n div 10 = decimal_value ds" "?n mod 10 = of_char c - 48"
      using is_digit_value(1) [OF c] by simp_all
    ultimately have "str_nat ?n = str_nat (decimal_value ds) @ [digit_char (of_char c - 48)]"
      by (simp add: str_nat_large)
    with snoc.IH [OF can] c show ?thesis by (simp add: decimal_value_snoc is_digit_value)
  qed
qed

lemma decimal_form_str_int: "decimal_form i (str_int i)"
  by (simp add: decimal_form_def str_int_def str_nat_canonical decimal_value_str_nat)

lemma decimal_form_unique:
  assumes "decimal_form i s"
  shows "s = str_int i"
proof (cases "i < 0")
  case True
  with assms have s: "s \<noteq> []" "hd s = CHR ''-''" and can: "canonical (tl s)"
    and v: "decimal_value (tl s) = nat (- i)"
    by (auto simp: decimal_form_def)
  from canonical_str_nat [OF can] v have "tl s = str_nat (nat (- i))" by simp
  with s True show ?thesis by (cases s) (simp_all add: str_int_def)
next
  case False
  with assms have can: "canonical s" and v: "decimal_value s = nat i"
    by (auto simp: decimal_form_def)
  from canonical_str_nat [OF can] v False show ?thesis by (simp add: str_int_def)
qed

lemma str_nat_length_le: "0 < k \<Longrightarrow> n < 10 ^ k \<Longrightarrow> length (str_nat n) \<le> k"
proof (induction k arbitrary: n)
  case 0
  then show ?case by simp
next
  case (Suc k)
  show ?case
  proof (cases "n < 10")
    case True
    then show ?thesis by (simp add: str_nat_small)
  next
    case False
    then have "0 < k" using Suc.prems(2) by (cases k) simp_all
    moreover have "n div 10 < 10 ^ k" using Suc.prems(2) by (simp add: less_mult_imp_div_less mult.commute)
    ultimately have "length (str_nat (n div 10)) \<le> k" by (rule Suc.IH)
    with False show ?thesis by (simp add: str_nat_large)
  qed
qed

lemma str_nat_length_gt: "10 ^ k \<le> n \<Longrightarrow> k < length (str_nat n)"
proof (induction k arbitrary: n)
  case 0
  then show ?case using str_nat_nonempty [of n] by (cases "str_nat n") simp_all
next
  case (Suc k)
  then have "10 * 10 ^ k \<le> n" by simp
  moreover have "(1::nat) \<le> 10 ^ k" by simp
  ultimately have big: "\<not> n < 10" and "10 ^ k \<le> n div 10" by linarith+
  then have "k < length (str_nat (n div 10))" using Suc.IH by simp
  with big show ?case by (simp add: str_nat_large)
qed

text \<open>The formatting raises exactly when the integer has more digits than the limit.\<close>

lemma format_int_fits:
  assumes "\<bar>i\<bar> < 10 ^ max_str_digits"
  shows "format_int i = Inr (str_int i)"
proof -
  have "int (nat \<bar>i\<bar>) < int (10 ^ max_str_digits)" using assms by simp
  then have "nat \<bar>i\<bar> < 10 ^ max_str_digits" by (simp only: of_nat_less_iff)
  moreover have "0 < max_str_digits" by (simp add: max_str_digits_def)
  ultimately have "length (str_nat (nat \<bar>i\<bar>)) \<le> max_str_digits"
    by (intro str_nat_length_le)
  then show ?thesis by (simp add: format_int_def)
qed

lemma format_int_long:
  assumes "10 ^ max_str_digits \<le> \<bar>i\<bar>"
  shows "format_int i = Inl ValueError"
proof -
  have "int (10 ^ max_str_digits) \<le> int (nat \<bar>i\<bar>)" using assms by simp
  then have "10 ^ max_str_digits \<le> nat \<bar>i\<bar>" by (simp only: of_nat_le_iff)
  then have "max_str_digits < length (str_nat (nat \<bar>i\<bar>))" by (rule str_nat_length_gt)
  then show ?thesis by (simp add: format_int_def)
qed

lemma small_fits:
  assumes "\<bar>i\<bar> < 10 ^ 4"
  shows "\<bar>i::int\<bar> < 10 ^ max_str_digits"
proof -
  have "(10::int) ^ 4 \<le> 10 ^ max_str_digits"
    by (rule power_increasing) (simp_all add: max_str_digits_def)
  with assms show ?thesis by (rule less_le_trans)
qed

lemma cpu_render_render:
  assumes "\<bar>cores\<bar> < 10 ^ max_str_digits" "\<bar>mhz\<bar> < 10 ^ max_str_digits"
  shows "cpu_render cores mhz prefix is_last = Inr (render (Cpu cores mhz) prefix is_last)"
  by (simp add: cpu_render_def format_int_fits [OF assms(1)] format_int_fits [OF assms(2)]
      connector_def)

subsection \<open>Worked example and leaves\<close>

text \<open>
  C1. The host \<open>server1\<close> with the single address \<open>192.168.1.1\<close>, a CPU of 4 cores at
  2500 MHz and a memory of 16000 MiB, rendered with the empty prefix as a last child,
  gives exactly four lines: the host's line with the connector of a last sibling, the
  address and the CPU with the connector \<open>+-\<close> behind two spaces, and the memory with the
  connector of a last sibling behind two spaces.
\<close>

theorem render_server1:
  "render (Host ''server1'' [''192.168.1.1''] [Cpu 4 2500, Memory 16000]) [] True =
     [CHR 0x5C # ''-Host: server1'',
      ''  +-192.168.1.1'',
      ''  +-CPU, 4 cores @ 2500MHz'',
      ''  '' @ CHR 0x5C # ''-Memory, 16000 MiB'']"
  by (simp add: eval_simps)

text \<open>
  C4, as stated, promises the line for all integers. The conversion of an integer to text
  raises \<^verbatim>\<open>ValueError\<close> when the integer has more than 4300 digits: for a CPU whose
  number of cores is 10 to the power 4300, a number of 4301 digits, rendering yields no
  line.
\<close>

theorem cpu_render_long_counterexample:
  "cpu_render (10 ^ max_str_digits) 0 [] True = Inl ValueError"
proof -
  have "format_int (10 ^ max_str_digits) = Inl ValueError"
    by (rule format_int_long) simp
  then show ?thesis by (simp add: cpu_render_def)
qed

text \<open>
  C4, amended. For all integers \<open>cores\<close> and \<open>mhz\<close> of at most 4300 decimal digits,
  a CPU rendered with the empty prefix gives the single line made of the connector,
  \<open>CPU, \<close>, the decimal form of \<open>cores\<close>, \<open> cores @ \<close>, the decimal form of
  \<open>mhz\<close> and \<open>MHz\<close>; the connector is backslash-minus when the node is a last sibling
  and \<open>+-\<close> otherwise. The decimal form of an integer is the one string of digits,
  behind a minus sign for a negative integer, that denotes it and has no needless zero in
  front.
\<close>

theorem cpu_render_line:
  assumes "\<bar>cores\<bar> < 10 ^ max_str_digits" "\<bar>mhz\<bar> < 10 ^ max_str_digits"
  shows "\<exists>c m. decimal_form cores c \<and> (\<forall>s. decimal_form cores s \<longrightarrow> s = c)
      \<and> decimal_form mhz m \<and> (\<forall>s. decimal_form mhz s \<longrightarrow> s = m)
      \<and> cpu_render cores mhz [] True
          = Inr [CHR 0x5C # ''-CPU, '' @ c @ '' cores @ '' @ m @ ''MHz'']
      \<and> cpu_render cores mhz [] False
          = Inr [''+-CPU, '' @ c @ '' cores @ '' @ m @ ''MHz'']"
proof (intro exI conjI)
  show "decimal_form cores (str_int cores)" "decimal_form mhz (str_int mhz)"
    by (rule decimal_form_str_int)+
  show "\<forall>s. decimal_form cores s \<longrightarrow> s = str_int cores" "\<forall>s. decimal_form mhz s \<longrightarrow> s = str_int mhz"
    using decimal_form_unique by blast+
  show "cpu_render cores mhz [] True
          = Inr [CHR 0x5C # ''-CPU, '' @ str_int cores @ '' cores @ '' @ str_int mhz @ ''MHz'']"
    "cpu_render cores mhz [] False
          = Inr [''+-CPU, '' @ str_int cores @ '' cores @ '' @ str_int mhz @ ''MHz'']"
    by (simp_all add: cpu_render_def format_int_fits [OF assms(1)] format_int_fits [OF assms(2)])
qed

theorem cpu_render_line_witness:
  "cpu_render 4 2500 [] True = Inr [CHR 0x5C # ''-CPU, 4 cores @ 2500MHz'']
   \<and> cpu_render 4 2500 [] False = Inr [''+-CPU, 4 cores @ 2500MHz'']
   \<and> cpu_render (- 8) 3200 [] False = Inr [''+-CPU, -8 cores @ 3200MHz'']"
proof -
  have d: "decimal_form 4 ''4''" "decimal_form 2500 ''2500''"
    "decimal_form (- 8) ''-8''" "decimal_form 3200 ''3200''"
    by (simp_all add: decimal_form_def canonical_def is_digit_def decimal_value_def)
  have f: "\<bar>4::int\<bar> < 10 ^ max_str_digits" "\<bar>2500::int\<bar> < 10 ^ max_str_digits"
    "\<bar>- 8::int\<bar> < 10 ^ max_str_digits" "\<bar>3200::int\<bar> < 10 ^ max_str_digits"
    by (rule small_fits, simp)+
  from cpu_render_line [OF f(1,2)] d(1,2)
  have "cpu_render 4 2500 [] True = Inr [CHR 0x5C # ''-CPU, 4 cores @ 2500MHz'']"
    and "cpu_render 4 2500 [] False = Inr [''+-CPU, 4 cores @ 2500MHz'']"
    by auto
  moreover from cpu_render_line [OF f(3,4)] d(3,4)
  have "cpu_render (- 8) 3200 [] False = Inr [''+-CPU, -8 cores @ 3200MHz'']"
    by auto
  ultimately show ?thesis by simp
qed

subsection \<open>Hosts\<close>

text \<open>
  C2. For every host, the line of the address at position \<open>k\<close> carries the connector
  of a last sibling exactly when \<open>k\<close> is the final position of the address list and the
  hardware list is empty; the hardware item at position \<open>j\<close> is rendered with the
  last-sibling flag exactly when \<open>j\<close> is the final position of the hardware list,
  whatever the number of addresses. (The second conjunct says that the connector tells
  the flag: it is backslash-minus exactly when the flag is true.)
\<close>

theorem host_last_sibling_flags:
  "render (Host name addrs hw) prefix is_last =
     (prefix @ connector is_last @ ''Host: '' @ name)
       # map (\<lambda>k. sub_prefix prefix is_last
                  @ connector (Suc k = length addrs \<and> hw = []) @ addrs ! k)
           [0..<length addrs]
       @ concat (map (\<lambda>j. render (hw ! j) (sub_prefix prefix is_last) (Suc j = length hw))
           [0..<length hw])
   \<and> (connector b = [CHR 0x5C, CHR ''-'']) = b"
  by (cases "hw = []")
     (simp_all add: render_addrs_index render_each_index last_index connector_last)

text \<open>
  C5. A host without addresses and without hardware renders as exactly one line: the
  prefix, the connector, which is backslash-minus if the host is a last sibling and \<open>+-\<close>
  otherwise, and \<open>Host: \<close> followed by the name.
\<close>

theorem render_empty_host:
  "render (Host name [] []) prefix is_last =
     [prefix @ (if is_last then [CHR 0x5C, CHR ''-''] else ''+-'') @ ''Host: '' @ name]"
  by (simp add: connector_def)

subsection \<open>The prefix handed to children\<close>

text \<open>
  C3, as stated, says that a network too renders its children with its own prefix
  extended by two spaces (or by a bar and a space). It does not: the lines of a network
  with one host, rendered with the empty prefix as a last sibling, are the network's line
  and the host's line with no prefix, not the network's line followed by the host rendered
  with the prefix of two spaces.
\<close>

theorem network_child_prefix_counterexample:
  "render (Network ''n'' [Host ''h'' [] []]) [] True = [''Network: n'', CHR 0x5C # ''-Host: h'']
   \<and> render (Network ''n'' [Host ''h'' [] []]) [] True
     \<noteq> (''Network: n'') # child_lines [Host ''h'' [] []] (sub_prefix [] True)"
  by (simp add: child_lines_def eval_simps)

text \<open>
  C3, amended. A disk and a host rendered with prefix \<open>p\<close> and last-sibling flag \<open>b\<close>
  render every child with the prefix \<open>p\<close> extended by two spaces if \<open>b\<close> is true and
  by a bar and a space otherwise. A network renders every host with the empty prefix,
  whatever its own prefix and flag are.
\<close>

theorem composite_child_prefix:
  "render (Disk gib parts) prefix is_last =
     (prefix @ connector is_last @ ''HDD, '' @ str_int gib @ '' GiB'')
       # child_lines parts (prefix @ (if is_last then ''  '' else ''| ''))
   \<and> render (Host name addrs hw) prefix is_last =
     (prefix @ connector is_last @ ''Host: '' @ name)
       # render_addrs (prefix @ (if is_last then ''  '' else ''| ''))
           (int (length addrs) + int (length hw)) (hw = []) 0 addrs
       @ child_lines hw (prefix @ (if is_last then ''  '' else ''| ''))
   \<and> render (Network title hosts) prefix is_last =
     (''Network: '' @ title) # child_lines hosts []"
  by (simp add: render_each_child_lines sub_prefix_def)

subsection \<open>Drawing\<close>

lemma write_lines_concat:
  "write_lines buf ls = buf @ concat (map (\<lambda>l. l @ [CHR 0x0A]) ls)"
  by (induction ls arbitrary: buf) simp_all

lemma render_nonempty: "render n prefix is_last \<noteq> []"
  by (cases n) simp_all

text \<open>
  C6. For every node, \<open>draw\<close> returns the lines of the node rendered with the empty
  prefix as a last sibling, each followed by a newline character; the text is not empty
  and its last character is a newline. The text of a network starts with \<open>Network: \<close>,
  the title and a newline, with no prefix and no connector, and goes on with the lines of
  the hosts.
\<close>

theorem draw_lines:
  "draw n = concat (map (\<lambda>l. l @ [CHR 0x0A]) (render n [] True))
   \<and> draw n \<noteq> []
   \<and> last (draw n) = CHR 0x0A
   \<and> draw (Network title hosts) =
       ''Network: '' @ title @ [CHR 0x0A]
         @ concat (map (\<lambda>l. l @ [CHR 0x0A]) (child_lines hosts []))"
proof -
  obtain l ls where r: "render n [] True = ls @ [l]"
    using render_nonempty [of n "[]" True] by (metis rev_exhaust)
  have d: "draw n = concat (map (\<lambda>l. l @ [CHR 0x0A]) (render n [] True))"
    by (simp add: draw_def write_lines_concat)
  have "draw n = concat (map (\<lambda>l. l @ [CHR 0x0A]) ls) @ l @ [CHR 0x0A]"
    by (simp add: d r)
  then have "draw n \<noteq> []" and "last (draw n) = CHR 0x0A"
    by simp_all
  moreover have "draw (Network title hosts) =
       ''Network: '' @ title @ [CHR 0x0A]
         @ concat (map (\<lambda>l. l @ [CHR 0x0A]) (child_lines hosts []))"
    by (simp add: draw_def write_lines_concat render_each_child_lines)
  ultimately show ?thesis using d by simp
qed

subsection \<open>Number of lines\<close>

lemma render_addrs_length: "length (render_addrs sub tot e idx ips) = length ips"
  by (simp add: render_addrs_index)

lemma render_length_nodes_addrs:
  "length (render n prefix is_last) = node_count n + addr_count n"
  "length (render_each sub m i cs) = sum_list (map node_count cs) + sum_list (map addr_count cs)"
  by (induction n prefix is_last and sub m i cs rule: render_render_each.induct)
     (simp_all add: render_addrs_length)

lemma render_length_tally:
  "disks_hold_partitions n \<Longrightarrow> length (render n prefix is_last) = line_count n"
  "list_all disks_hold_partitions cs \<Longrightarrow>
     length (render_each sub m i cs) = sum_list (map line_count cs)"
proof (induction n prefix is_last and sub m i cs rule: render_render_each.induct)
  case (4 gib parts prefix is_last)
  have "list_all is_partition ps \<Longrightarrow> length (render_each s k j ps) = length ps" for ps s k j
  proof (induction ps arbitrary: j)
    case Nil
    show ?case by simp
  next
    case (Cons p ps)
    then show ?case by (cases p) simp_all
  qed
  with 4 show ?case by simp
qed (simp_all add: render_addrs_length)

text \<open>
  C10. Rendering a tree gives one line for every node of the tree and one for every
  address string in it. Where disks hold partitions only, as the data model has it, that
  is: one line for a leaf, one more than the number of its partitions for a disk, one
  more than the number of its addresses plus the lines of its hardware for a host, and
  one more than the lines of its hosts for a network.
\<close>

theorem render_line_count:
  "length (render n prefix is_last) = node_count n + addr_count n
   \<and> (disks_hold_partitions n \<longrightarrow> length (render n prefix is_last) = line_count n)"
  using render_length_nodes_addrs(1) [of n prefix is_last]
    render_length_tally(1) [of n prefix is_last] by blast

theorem render_line_count_witness:
  "disks_hold_partitions
     (Network ''net'' [Host ''h'' [''10.0.0.1'']
        [Cpu 8 3200, Disk 2000 [Partition 0 500 ''system'', Partition 1 1500 ''data'']]])
   \<and> length (render (Network ''net'' [Host ''h'' [''10.0.0.1'']
        [Cpu 8 3200, Disk 2000 [Partition 0 500 ''system'', Partition 1 1500 ''data'']]])
        [] True) = 7"
proof -
  let ?n = "Network ''net'' [Host ''h'' [''10.0.0.1'']
        [Cpu 8 3200, Disk 2000 [Partition 0 500 ''system'', Partition 1 1500 ''data'']]]"
  have hyp: "disks_hold_partitions ?n" by simp
  have "line_count ?n = 7" by simp
  with render_line_count [of ?n "[]" True] hyp show ?thesis by metis
qed

section \<open>Properties of the search\<close>

lemma find_host_loop_find:
  "list_all is_host hosts \<Longrightarrow>
     find_host_loop hosts fqdn = Inr (List.find (\<lambda>h. name_attr h = Inr fqdn) hosts)"
proof (induction hosts)
  case Nil
  show ?case by simp
next
  case (Cons h hs)
  then obtain name addrs hw where "h = Host name addrs hw"
    by (cases h) simp_all
  with Cons show ?case by simp
qed

text \<open>
  C7. For every network whose children are hosts and every query string, \<open>find_host\<close>
  raises no error and returns the first host, in the order of the list, whose name is
  equal to the query, character for character. It returns the absent result when no host
  has that name; and the host at position \<open>i\<close> when that host has the name and no host
  before it has, so of several hosts of the same name the earliest is returned.
\<close>

theorem find_host_first_match:
  assumes "list_all is_host hosts"
  shows "find_host (Network title hosts) fqdn =
           Inr (List.find (\<lambda>h. name_attr h = Inr fqdn) hosts)
    \<and> ((\<forall>h \<in> set hosts. name_attr h \<noteq> Inr fqdn) \<longrightarrow>
          find_host (Network title hosts) fqdn = Inr None)
    \<and> (\<forall>i < length hosts.
          name_attr (hosts ! i) = Inr fqdn \<and> (\<forall>j < i. name_attr (hosts ! j) \<noteq> Inr fqdn) \<longrightarrow>
          find_host (Network title hosts) fqdn = Inr (Some (hosts ! i)))"
proof -
  have f: "find_host (Network title hosts) fqdn =
             Inr (List.find (\<lambda>h. name_attr h = Inr fqdn) hosts)"
    using assms by (simp add: find_host_loop_find)
  have none: "List.find (\<lambda>h. name_attr h = Inr fqdn) hosts = None"
    if "\<forall>h \<in> set hosts. name_attr h \<noteq> Inr fqdn"
    using that by (simp add: find_None_iff)
  have some: "List.find (\<lambda>h. name_attr h = Inr fqdn) hosts = Some (hosts ! i)"
    if "i < length hosts" "name_attr (hosts ! i) = Inr fqdn"
       "\<forall>j < i. name_attr (hosts ! j) \<noteq> Inr fqdn" for i
    using that by (auto simp: find_Some_iff)
  show ?thesis using f none some by auto
qed

theorem find_host_first_match_witness:
  "find_host (Network ''net'' [Host ''a'' [] [], Host ''b'' [''10.0.0.1''] [], Host ''b'' [] []]) ''b''
     = Inr (Some (Host ''b'' [''10.0.0.1''] []))
   \<and> find_host (Network ''net'' [Host ''a'' [] [], Host ''b'' [''10.0.0.1''] [], Host ''b'' [] []]) ''B''
     = Inr None"
proof -
  let ?hs = "[Host ''a'' [] [], Host ''b'' [''10.0.0.1''] [], Host ''b'' [] []]"
  have hyp: "list_all is_host ?hs" by simp
  have first: "1 < length ?hs \<and> name_attr (?hs ! 1) = Inr ''b''
      \<and> (\<forall>j < 1. name_attr (?hs ! j) \<noteq> Inr ''b'')" by simp
  have absent: "\<forall>h \<in> set ?hs. name_attr h \<noteq> Inr ''B''" by simp
  from find_host_first_match [OF hyp, of "''net''" "''b''"] first
  have "find_host (Network ''net'' ?hs) ''b'' = Inr (Some (?hs ! 1))" by blast
  moreover from find_host_first_match [OF hyp, of "''net''" "''B''"] absent
  have "find_host (Network ''net'' ?hs) ''B'' = Inr None" by blast
  ultimately show ?thesis by simp
qed

section \<open>Properties of cloning\<close>

subsection \<open>Reading the store\<close>

lemma lookup_Some_less: "lookup h a = Some v \<Longrightarrow> a < length h"
  by (simp add: lookup_def split: if_splits)

lemma lookup_append_old: "a < length h \<Longrightarrow> lookup (h @ zs) a = lookup h a"
  by (simp add: lookup_def nth_append)

lemma lookup_update: "lookup (h[y := v]) x = (if x = y \<and> y < length h then Some v else lookup h x)"
  by (simp add: lookup_def)

subsection \<open>Trees depend on their cells only\<close>

lemma tree_at_allocated:
  "tree_at h a t fp \<Longrightarrow> a \<in> set fp \<and> (\<forall>x \<in> set fp. x < length h)"
  "trees_at h vs ts fp \<Longrightarrow> \<forall>x \<in> set fp. x < length h"
  by (induction rule: tree_at_trees_at.inducts) (auto dest: lookup_Some_less)

lemma tree_at_frame:
  "tree_at h a t fp \<Longrightarrow> (\<forall>x \<in> set fp. lookup h' x = lookup h x) \<Longrightarrow> tree_at h' a t fp"
  "trees_at h vs ts fp \<Longrightarrow> (\<forall>x \<in> set fp. lookup h' x = lookup h x) \<Longrightarrow> trees_at h' vs ts fp"
  by (induction rule: tree_at_trees_at.inducts) (auto intro: tree_at_trees_at.intros)

lemma tree_at_append:
  assumes "tree_at h a t fp"
  shows "tree_at (h @ zs) a t fp"
proof -
  have "\<forall>x \<in> set fp. x < length h" using tree_at_allocated(1) [OF assms] by blast
  then have "\<forall>x \<in> set fp. lookup (h @ zs) x = lookup h x"
    by (simp add: lookup_append_old)
  with assms show ?thesis by (rule tree_at_frame(1))
qed

text \<open>At most one tree can be read from an address.\<close>

lemma tree_at_leaf_inv:
  "tree_at h a t fp \<Longrightarrow> lookup h a = Some (OCpu cores mhz) \<Longrightarrow> t = Cpu cores mhz \<and> fp = [a]"
  "tree_at h a t fp \<Longrightarrow> lookup h a = Some (OMemory mib) \<Longrightarrow> t = Memory mib \<and> fp = [a]"
  "tree_at h a t fp \<Longrightarrow> lookup h a = Some (OPartition index gib role) \<Longrightarrow>
     t = Partition index gib role \<and> fp = [a]"
  by (erule tree_at.cases; simp)+

lemma tree_at_disk_inv:
  "tree_at h a t fp \<Longrightarrow> lookup h a = Some (ODisk gib l) \<Longrightarrow>
     \<exists>vs parts fp0. lookup h l = Some (OList vs) \<and> trees_at h vs parts fp0
        \<and> t = Disk gib parts \<and> fp = a # l # fp0"
  by (erule tree_at.cases) simp_all

lemma tree_at_network_inv:
  "tree_at h a t fp \<Longrightarrow> lookup h a = Some (ONetwork title l) \<Longrightarrow>
     \<exists>vs hosts fp0. lookup h l = Some (OList vs) \<and> trees_at h vs hosts fp0
        \<and> t = Network title hosts \<and> fp = a # l # fp0"
  by (erule tree_at.cases) simp_all

lemma tree_at_host_inv:
  "tree_at h a t fp \<Longrightarrow> lookup h a = Some (OHost name la lh) \<Longrightarrow>
     \<exists>addrs vs hw fp0. lookup h la = Some (OList (map Str addrs)) \<and> lookup h lh = Some (OList vs)
        \<and> trees_at h vs hw fp0 \<and> t = Host name addrs hw \<and> fp = a # la # lh # fp0"
  by (erule tree_at.cases) simp_all

lemma trees_at_nil_inv: "trees_at h [] ts fp \<Longrightarrow> ts = [] \<and> fp = []"
  by (erule trees_at.cases) simp_all

lemma trees_at_ref_inv:
  "trees_at h (Ref a # vs) ts fp \<Longrightarrow>
     \<exists>t fp1 ts' fp2. tree_at h a t fp1 \<and> trees_at h vs ts' fp2 \<and> ts = t # ts' \<and> fp = fp1 @ fp2"
  by (erule trees_at.cases) auto

lemma tree_at_functional:
  "tree_at h a t fp \<Longrightarrow> tree_at h a t' fp' \<Longrightarrow> t' = t \<and> fp' = fp"
  "trees_at h vs ts fp \<Longrightarrow> trees_at h vs ts' fp' \<Longrightarrow> ts' = ts \<and> fp' = fp"
proof (induction arbitrary: t' fp' and ts' fp' rule: tree_at_trees_at.inducts)
  case (cpu_at h a cores mhz)
  then show ?case using tree_at_leaf_inv(1) by blast
next
  case (memory_at h a mib)
  then show ?case using tree_at_leaf_inv(2) by blast
next
  case (partition_at h a index gib role)
  then show ?case using tree_at_leaf_inv(3) by blast
next
  case (disk_at h a gib l vs parts fp)
  from tree_at_disk_inv [OF disk_at.prems disk_at.hyps(1)] disk_at.hyps(2)
  obtain parts' fp0 where "trees_at h vs parts' fp0" "t' = Disk gib parts'" "fp' = a # l # fp0"
    by auto
  with disk_at.IH [of parts' fp0] show ?case by simp
next
  case (host_at h a name la lh addrs vs hw fp)
  have "inj Str" by (simp add: inj_def)
  then have inj: "map Str xs = map Str addrs \<Longrightarrow> xs = addrs" for xs
    by (simp add: inj_map_eq_map)
  from tree_at_host_inv [OF host_at.prems host_at.hyps(1)] host_at.hyps(2,3)
  obtain addrs' hw' fp0 where "map Str addrs' = map Str addrs" "trees_at h vs hw' fp0"
      "t' = Host name addrs' hw'" "fp' = a # la # lh # fp0"
    by auto
  with host_at.IH [of hw' fp0] inj [of addrs'] show ?case by simp
next
  case (network_at h a title l vs hosts fp)
  from tree_at_network_inv [OF network_at.prems network_at.hyps(1)] network_at.hyps(2)
  obtain hosts' fp0 where "trees_at h vs hosts' fp0" "t' = Network title hosts'" "fp' = a # l # fp0"
    by auto
  with network_at.IH [of hosts' fp0] show ?case by simp
next
  case (none_at h)
  then show ?case using trees_at_nil_inv by blast
next
  case (more_at h a t fp vs ts fps)
  from trees_at_ref_inv [OF more_at.prems]
  obtain t0 fp1 ts0 fp2 where "tree_at h a t0 fp1" "trees_at h vs ts0 fp2"
      "ts' = t0 # ts0" "fp' = fp1 @ fp2"
    by auto
  with more_at.IH(1) [of t0 fp1] more_at.IH(2) [of ts0 fp2] show ?case by simp
qed

lemma draws_tree: "tree_at h a t fp \<Longrightarrow> draws h a s = (s = draw t)"
  unfolding draws_def using tree_at_functional(1) by blast

subsection \<open>Single steps of the copy\<close>

lemma fuel_two: "2 + s \<le> k \<Longrightarrow> \<exists>j. k = Suc (Suc j) \<and> s \<le> j"
  by (cases k; simp; cases "k - 1"; simp)

lemma fuel_one: "1 \<le> k \<Longrightarrow> \<exists>j. k = Suc j"
  by (cases k) simp_all

lemma deepcopy_elems_strs:
  "lookup h y = Some (OList ws) \<Longrightarrow>
     deepcopy_elems k h memo y (map Str ss) = Some (h[y := OList (ws @ map Str ss)], memo)"
proof (induction ss arbitrary: h ws)
  case Nil
  then have "y < length h" and "h ! y = OList ws"
    by (simp_all add: lookup_def split: if_splits)
  then have "h[y := OList ws] = h"
    using list_update_id [of h y] by simp
  then show ?case by simp
next
  case (Cons s ss)
  have "lookup (h[y := OList (ws @ [Str s])]) y = Some (OList (ws @ [Str s]))"
    using Cons.prems by (simp add: lookup_update lookup_Some_less)
  from Cons.IH [OF this] Cons.prems show ?case
    by (simp add: list_append_def)
qed

lemma deepcopy_list_step:
  "memo l = None \<Longrightarrow> lookup H l = Some (OList vs) \<Longrightarrow>
   deepcopy_elems k (H @ [OList []]) (memo(l \<mapsto> length H)) (length H) vs = Some (H', memo') \<Longrightarrow>
   deepcopy (Suc k) H memo l = Some (H', memo', length H)"
  by simp

lemma deepcopy_disk_step:
  "memo a = None \<Longrightarrow> lookup H a = Some (ODisk gib l) \<Longrightarrow>
   deepcopy k (H @ [OBlank]) (memo(a \<mapsto> length H)) l = Some (H @ OBlank # zs, memo', l') \<Longrightarrow>
   deepcopy (Suc k) H memo a = Some (H @ ODisk gib l' # zs, memo', length H)"
  by simp

lemma deepcopy_network_step:
  "memo a = None \<Longrightarrow> lookup H a = Some (ONetwork title l) \<Longrightarrow>
   deepcopy k (H @ [OBlank]) (memo(a \<mapsto> length H)) l = Some (H @ OBlank # zs, memo', l') \<Longrightarrow>
   deepcopy (Suc k) H memo a = Some (H @ ONetwork title l' # zs, memo', length H)"
  by simp

lemma deepcopy_host_step:
  "memo a = None \<Longrightarrow> lookup H a = Some (OHost name la lh) \<Longrightarrow>
   deepcopy k (H @ [OBlank]) (memo(a \<mapsto> length H)) la = Some (H1, memo1, la') \<Longrightarrow>
   deepcopy k H1 memo1 lh = Some (H @ OBlank # zs, memo', lh') \<Longrightarrow>
   deepcopy (Suc k) H memo a = Some (H @ OHost name la' lh' # zs, memo', length H)"
  by simp

subsection \<open>The invariant is kept\<close>

lemma map_le_SomeD: "map_le m m' \<Longrightarrow> m x = Some y \<Longrightarrow> m' x = Some y"
  by (metis domI map_le_def)

lemma map_val_mono: "refs_val v \<subseteq> dom m \<Longrightarrow> map_le m m' \<Longrightarrow> map_val m' v = map_val m v"
  by (cases v) (auto simp: map_le_def dom_def)

lemma map_obj_mono: "refs_of v \<subseteq> dom m \<Longrightarrow> map_le m m' \<Longrightarrow> map_obj m' v = map_obj m v"
proof (cases v)
  case (OList vs)
  assume "refs_of v \<subseteq> dom m" "map_le m m'"
  with OList have "\<forall>u \<in> set vs. map_val m' u = map_val m u"
    by (auto intro!: map_val_mono)
  with OList show ?thesis by simp
qed (auto simp: map_le_def dom_def)

lemma copy_inv_lookup: "copy_inv h H m W \<Longrightarrow> lookup h x = Some v \<Longrightarrow> lookup H x = Some v"
  by (auto simp: copy_inv_def lookup_def split: if_splits)

lemma copy_inv_alloc:
  assumes "copy_inv h H m W" "m x = None" "x < length h"
  shows "copy_inv h (H @ [v]) (m(x \<mapsto> length H)) (insert (length H) W)"
proof -
  have le: "map_le m (m(x \<mapsto> length H))" using assms(2) by (auto simp: map_le_def)
  have "refs_of (h ! x') \<subseteq> dom (m(x \<mapsto> length H))
      \<and> (H @ [v]) ! y = map_obj (m(x \<mapsto> length H)) (h ! x')"
    if "(m(x \<mapsto> length H)) x' = Some y" "y \<notin> insert (length H) W" for x' y
  proof -
    from that have m: "m x' = Some y" "y \<notin> W" by (auto split: if_splits)
    with assms(1) have r: "refs_of (h ! x') \<subseteq> dom m" and e: "H ! y = map_obj m (h ! x')"
      and "y < length H"
      unfolding copy_inv_def by blast+
    then show ?thesis using map_obj_mono [OF r le] by (auto simp: nth_append)
  qed
  moreover have "x1 = x2" if "(m(x \<mapsto> length H)) x1 = Some y" "(m(x \<mapsto> length H)) x2 = Some y" for x1 x2 y
    using that assms(1) unfolding copy_inv_def by (fastforce split: if_splits)
  moreover have "x' < length h \<and> length h \<le> y \<and> y < length (H @ [v])"
    if "(m(x \<mapsto> length H)) x' = Some y" for x' y
    using that assms(1,3) unfolding copy_inv_def by (fastforce split: if_splits)
  moreover have "length h \<le> length (H @ [v])" "\<forall>x < length h. (H @ [v]) ! x = h ! x"
    using assms(1) unfolding copy_inv_def by (auto simp: nth_append)
  ultimately show ?thesis unfolding copy_inv_def by blast
qed

lemma copy_inv_write:
  assumes "copy_inv h H m W" "y \<in> W" "length h \<le> y"
  shows "copy_inv h (H[y := v]) m W"
proof -
  have "refs_of (h ! x') \<subseteq> dom m \<and> H[y := v] ! y' = map_obj m (h ! x')"
    if "m x' = Some y'" "y' \<notin> W" for x' y'
  proof -
    from that assms(2) have "y' \<noteq> y" by auto
    with that assms(1) show ?thesis unfolding copy_inv_def by auto
  qed
  moreover have "\<forall>x < length h. H[y := v] ! x = h ! x"
    using assms(1,3) unfolding copy_inv_def by auto
  moreover have "length h \<le> length (H[y := v])"
    and "\<forall>x y'. m x = Some y' \<longrightarrow> x < length h \<and> length h \<le> y' \<and> y' < length (H[y := v])"
    and "\<forall>x1 x2 y'. m x1 = Some y' \<and> m x2 = Some y' \<longrightarrow> x1 = x2"
    using assms(1) unfolding copy_inv_def by simp_all
  ultimately show ?thesis unfolding copy_inv_def by blast
qed

lemma copy_inv_done:
  assumes "copy_inv h H m (insert n W)" "m x = Some n" "refs_of (h ! x) \<subseteq> dom m"
    "H ! n = map_obj m (h ! x)"
  shows "copy_inv h H m W"
proof -
  have "refs_of (h ! x') \<subseteq> dom m \<and> H ! y = map_obj m (h ! x')" if "m x' = Some y" "y \<notin> W" for x' y
  proof (cases "y = n")
    case True
    with that assms(1,2) have "x' = x" unfolding copy_inv_def by blast
    with True assms(3,4) show ?thesis by simp
  next
    case False
    with that assms(1) show ?thesis unfolding copy_inv_def by blast
  qed
  with assms(1) show ?thesis unfolding copy_inv_def by blast
qed

lemma copy_inv_cell:
  assumes "copy_inv h H m {}" "m x = Some y" "lookup h x = Some v"
  shows "lookup H y = Some (map_obj m v)" "refs_of v \<subseteq> dom m"
proof -
  from assms(3) have "h ! x = v" by (simp add: lookup_def split: if_splits)
  moreover from assms(1,2) have "y < length H" "refs_of (h ! x) \<subseteq> dom m" "H ! y = map_obj m (h ! x)"
    unfolding copy_inv_def by blast+
  ultimately show "lookup H y = Some (map_obj m v)" "refs_of v \<subseteq> dom m"
    by (simp_all add: lookup_def)
qed

subsection \<open>Copying one object\<close>

text \<open>
  An object that is in the memo is not copied again; one that is not is allocated,
  filled in and then finished. The copies of what it refers to are given as hypotheses.
\<close>

lemma cell_hit:
  assumes "copy_inv h H m W" "m x = Some y"
  shows "cell_copied h H m W x (Suc k)"
proof -
  have "deepcopy (Suc k) H m x = Some (H @ [], m, y)" using assms(2) by simp
  with assms show ?thesis unfolding cell_copied_def by fastforce
qed

lemma cell_new:
  assumes inv: "copy_inv h (H @ zs) m' (insert (length H) W)"
    and step: "deepcopy k H m x = Some (H @ zs, m', length H)"
    and le: "map_le (m(x \<mapsto> length H)) m'" and miss: "m x = None"
    and refs: "refs_of (h ! x) \<subseteq> dom m'" and obj: "(H @ zs) ! length H = map_obj m' (h ! x)"
  shows "cell_copied h H m W x k"
proof -
  have x: "m' x = Some (length H)" using le by (auto simp: map_le_def)
  have "map_le m (m(x \<mapsto> length H))" using miss by (auto simp: map_le_def)
  then have "map_le m m'" using le by (rule map_le_trans)
  moreover have "copy_inv h (H @ zs) m' W"
    using inv x refs obj by (rule copy_inv_done)
  ultimately show ?thesis using step x unfolding cell_copied_def by blast
qed

lemma leaf_cell:
  assumes inv: "copy_inv h H m W" and x: "lookup h x = Some v"
    and step: "m x = None \<Longrightarrow> deepcopy (Suc k) H m x = Some (H @ [v], m(x \<mapsto> length H), length H)"
    and leaf: "refs_of v = {}" "\<And>m'. map_obj m' v = v"
  shows "cell_copied h H m W x (Suc k)"
proof (cases "m x")
  case (Some y)
  with inv show ?thesis by (rule cell_hit)
next
  case None
  have hx: "x < length h" "h ! x = v" using x by (simp_all add: lookup_def split: if_splits)
  show ?thesis
  proof (rule cell_new [where zs = "[v]" and m' = "m(x \<mapsto> length H)"])
    show "copy_inv h (H @ [v]) (m(x \<mapsto> length H)) (insert (length H) W)"
      using inv None hx(1) by (rule copy_inv_alloc)
    show "deepcopy (Suc k) H m x = Some (H @ [v], m(x \<mapsto> length H), length H)"
      using None by (rule step)
    show "refs_of (h ! x) \<subseteq> dom (m(x \<mapsto> length H))" using hx leaf by simp
    show "(H @ [v]) ! length H = map_obj (m(x \<mapsto> length H)) (h ! x)" using hx leaf by simp
  qed (simp_all add: None)
qed

lemma strs_done:
  assumes inv: "copy_inv h H m W" and y: "y \<in> W" "length h \<le> y" "lookup H y = Some (OList ws)"
  shows "elems_done h H m W y ws (map Str ss) k"
proof -
  have m: "map (map_val m) (map Str ss) = map Str ss" by simp
  have "deepcopy_elems k H m y (map Str ss) = Some (H[y := OList (ws @ map Str ss)] @ [], m)"
    using deepcopy_elems_strs [OF y(3)] by simp
  moreover have "copy_inv h (H[y := OList (ws @ map Str ss)] @ []) m W"
    using copy_inv_write [OF inv y(1,2)] by simp
  moreover have "(\<Union>v \<in> set (map Str ss). refs_val v) \<subseteq> dom m" by auto
  ultimately show ?thesis unfolding elems_done_def m
    by (metis m map_le_refl)
qed

lemma list_cell:
  assumes inv: "copy_inv h H m W" and l: "lookup h l = Some (OList vs)"
    and elems: "\<And>H1 m1 W1 y. copy_inv h H1 m1 W1 \<Longrightarrow> y \<in> W1 \<Longrightarrow> length h \<le> y \<Longrightarrow>
        lookup H1 y = Some (OList []) \<Longrightarrow> elems_done h H1 m1 W1 y [] vs j"
  shows "cell_copied h H m W l (Suc j)"
proof (cases "m l")
  case (Some y)
  with inv show ?thesis by (rule cell_hit)
next
  case None
  let ?n = "length H"
  have hl: "l < length h" "h ! l = OList vs" using l by (simp_all add: lookup_def split: if_splits)
  have Hl: "lookup H l = Some (OList vs)" using inv l by (rule copy_inv_lookup)
  have n: "length h \<le> ?n" using inv unfolding copy_inv_def by simp
  have inv1: "copy_inv h (H @ [OList []]) (m(l \<mapsto> ?n)) (insert ?n W)"
    using inv None hl(1) by (rule copy_inv_alloc)
  have "elems_done h (H @ [OList []]) (m(l \<mapsto> ?n)) (insert ?n W) ?n [] vs j"
    using inv1 n by (intro elems) (simp_all add: lookup_def)
  then obtain zs m' where
    e: "deepcopy_elems j (H @ [OList []]) (m(l \<mapsto> ?n)) ?n vs
          = Some ((H @ [OList []])[?n := OList ([] @ map (map_val m') vs)] @ zs, m')"
    and le: "map_le (m(l \<mapsto> ?n)) m'" and r: "(\<Union>v \<in> set vs. refs_val v) \<subseteq> dom m'"
    and inv2: "copy_inv h ((H @ [OList []])[?n := OList ([] @ map (map_val m') vs)] @ zs) m' (insert ?n W)"
    unfolding elems_done_def by blast
  let ?zs = "OList (map (map_val m') vs) # zs"
  have upd: "(H @ [OList []])[?n := OList ([] @ map (map_val m') vs)] @ zs = H @ ?zs"
    by simp
  show ?thesis
  proof (rule cell_new [where zs = ?zs and m' = m'])
    show "copy_inv h (H @ ?zs) m' (insert ?n W)" using inv2 upd by simp
    show "deepcopy (Suc j) H m l = Some (H @ ?zs, m', ?n)"
      using deepcopy_list_step [of m l H vs j "H @ ?zs" m'] None Hl e upd by simp
    show "refs_of (h ! l) \<subseteq> dom m'" using hl r by simp
    show "(H @ ?zs) ! ?n = map_obj m' (h ! l)" using hl by simp
  qed (simp_all add: None le)
qed

lemma inst_cell:
  assumes inv: "copy_inv h H m W" and a: "lookup h a = Some v" "refs_of v = {l}"
    and obj: "\<And>m'. map_obj m' v = con (the (m' l))"
    and list: "\<And>H1 m1 W1. copy_inv h H1 m1 W1 \<Longrightarrow> cell_copied h H1 m1 W1 l (Suc j)"
    and step: "\<And>zs m' l'. m a = None \<Longrightarrow>
        deepcopy (Suc j) (H @ [OBlank]) (m(a \<mapsto> length H)) l = Some (H @ OBlank # zs, m', l') \<Longrightarrow>
        deepcopy (Suc (Suc j)) H m a = Some (H @ con l' # zs, m', length H)"
  shows "cell_copied h H m W a (Suc (Suc j))"
proof (cases "m a")
  case (Some y)
  with inv show ?thesis by (rule cell_hit)
next
  case None
  let ?n = "length H"
  have ha: "a < length h" "h ! a = v" using a(1) by (simp_all add: lookup_def split: if_splits)
  have n: "length h \<le> ?n" using inv unfolding copy_inv_def by simp
  have inv1: "copy_inv h (H @ [OBlank]) (m(a \<mapsto> ?n)) (insert ?n W)"
    using inv None ha(1) by (rule copy_inv_alloc)
  from list [OF inv1] obtain zs m' l' where
    c: "deepcopy (Suc j) (H @ [OBlank]) (m(a \<mapsto> ?n)) l = Some ((H @ [OBlank]) @ zs, m', l')"
    and l': "m' l = Some l'" and le: "map_le (m(a \<mapsto> ?n)) m'"
    and inv2: "copy_inv h ((H @ [OBlank]) @ zs) m' (insert ?n W)"
    unfolding cell_copied_def by blast
  have upd: "((H @ [OBlank]) @ zs)[?n := con l'] = H @ con l' # zs"
    using list_update_length [of H OBlank zs "con l'"] by simp
  show ?thesis
  proof (rule cell_new [where zs = "con l' # zs" and m' = m'])
    show "copy_inv h (H @ con l' # zs) m' (insert ?n W)"
      using copy_inv_write [OF inv2, of ?n "con l'"] n upd by simp
    show "deepcopy (Suc (Suc j)) H m a = Some (H @ con l' # zs, m', ?n)"
      using step [OF None, of zs m' l'] c by simp
    show "refs_of (h ! a) \<subseteq> dom m'" using ha a(2) l' by auto
    show "(H @ con l' # zs) ! ?n = map_obj m' (h ! a)" using ha obj l' by simp
  qed (simp_all add: None le)
qed

lemma host_cell:
  assumes inv: "copy_inv h H m W" and a: "lookup h a = Some (OHost name la lh)"
    and list1: "\<And>H1 m1 W1. copy_inv h H1 m1 W1 \<Longrightarrow> cell_copied h H1 m1 W1 la (Suc j)"
    and list2: "\<And>H1 m1 W1. copy_inv h H1 m1 W1 \<Longrightarrow> cell_copied h H1 m1 W1 lh (Suc j)"
  shows "cell_copied h H m W a (Suc (Suc j))"
proof (cases "m a")
  case (Some y)
  with inv show ?thesis by (rule cell_hit)
next
  case None
  let ?n = "length H"
  have ha: "a < length h" "h ! a = OHost name la lh"
    using a by (simp_all add: lookup_def split: if_splits)
  have Ha: "lookup H a = Some (OHost name la lh)" using inv a by (rule copy_inv_lookup)
  have n: "length h \<le> ?n" using inv unfolding copy_inv_def by simp
  have inv1: "copy_inv h (H @ [OBlank]) (m(a \<mapsto> ?n)) (insert ?n W)"
    using inv None ha(1) by (rule copy_inv_alloc)
  from list1 [OF inv1] obtain zs1 m1 la' where
    c1: "deepcopy (Suc j) (H @ [OBlank]) (m(a \<mapsto> ?n)) la = Some ((H @ [OBlank]) @ zs1, m1, la')"
    and la': "m1 la = Some la'" and le1: "map_le (m(a \<mapsto> ?n)) m1"
    and inv2: "copy_inv h ((H @ [OBlank]) @ zs1) m1 (insert ?n W)"
    unfolding cell_copied_def by blast
  from list2 [OF inv2] obtain zs2 m2 lh' where
    c2: "deepcopy (Suc j) ((H @ [OBlank]) @ zs1) m1 lh = Some (((H @ [OBlank]) @ zs1) @ zs2, m2, lh')"
    and lh': "m2 lh = Some lh'" and le2: "map_le m1 m2"
    and inv3: "copy_inv h (((H @ [OBlank]) @ zs1) @ zs2) m2 (insert ?n W)"
    unfolding cell_copied_def by blast
  have la2: "m2 la = Some la'" using le2 la' by (rule map_le_SomeD)
  let ?v = "OHost name la' lh'"
  let ?zs = "?v # zs1 @ zs2"
  have upd: "(((H @ [OBlank]) @ zs1) @ zs2)[?n := ?v] = H @ ?zs"
    using list_update_length [of H OBlank "zs1 @ zs2" ?v] by simp
  show ?thesis
  proof (rule cell_new [where zs = ?zs and m' = m2])
    show "copy_inv h (H @ ?zs) m2 (insert ?n W)"
      using copy_inv_write [OF inv3, of ?n ?v] n upd by simp
    show "deepcopy (Suc (Suc j)) H m a = Some (H @ ?zs, m2, ?n)"
      using deepcopy_host_step [of m a H name la lh "Suc j" "(H @ [OBlank]) @ zs1" m1 la'
          "zs1 @ zs2" m2 lh'] None Ha c1 c2 by simp
    show "refs_of (h ! a) \<subseteq> dom m2" using ha la2 lh' by auto
    show "(H @ ?zs) ! ?n = map_obj m2 (h ! a)" using ha la2 lh' by simp
    show "map_le (m(a \<mapsto> ?n)) m2" using le1 le2 by (rule map_le_trans)
  qed (simp add: None)
qed

lemma elem_done:
  assumes inv: "copy_inv h H m W" and y: "y \<in> W" "length h \<le> y" "lookup H y = Some (OList ws)"
    and first: "cell_copied h H m W a k"
    and rest: "\<And>H1 m1 ws1. copy_inv h H1 m1 W \<Longrightarrow> lookup H1 y = Some (OList ws1) \<Longrightarrow>
        elems_done h H1 m1 W y ws1 vs k"
  shows "elems_done h H m W y ws (Ref a # vs) k"
proof -
  have yH: "y < length H" using y(3) by (rule lookup_Some_less)
  from first obtain zs1 m1 a' where
    c1: "deepcopy k H m a = Some (H @ zs1, m1, a')" and a': "m1 a = Some a'"
    and le1: "map_le m m1" and inv1: "copy_inv h (H @ zs1) m1 W"
    unfolding cell_copied_def by blast
  let ?H1 = "H[y := OList (ws @ [Ref a'])] @ zs1"
  have app: "list_append (H @ zs1) y (Ref a') = ?H1"
    using yH y(3) by (simp add: list_append_def lookup_append_old list_update_append1)
  have inv1': "copy_inv h ?H1 m1 W"
    using copy_inv_write [OF inv1 y(1,2), of "OList (ws @ [Ref a'])"] yH
    by (simp add: list_update_append1)
  have "lookup ?H1 y = Some (OList (ws @ [Ref a']))"
    using yH by (simp add: lookup_append_old lookup_update)
  from rest [OF inv1' this] obtain zs2 m2 where
    c2: "deepcopy_elems k ?H1 m1 y vs
          = Some (?H1[y := OList ((ws @ [Ref a']) @ map (map_val m2) vs)] @ zs2, m2)"
    and le2: "map_le m1 m2" and r2: "(\<Union>v \<in> set vs. refs_val v) \<subseteq> dom m2"
    and inv2: "copy_inv h (?H1[y := OList ((ws @ [Ref a']) @ map (map_val m2) vs)] @ zs2) m2 W"
    unfolding elems_done_def by blast
  have a2: "m2 a = Some a'" using le2 a' by (rule map_le_SomeD)
  let ?H2 = "H[y := OList (ws @ map (map_val m2) (Ref a # vs))] @ zs1 @ zs2"
  have H2: "?H1[y := OList ((ws @ [Ref a']) @ map (map_val m2) vs)] @ zs2 = ?H2"
    using yH a2 by (simp add: list_update_append1)
  have "deepcopy_elems k H m y (Ref a # vs) = Some (?H2, m2)"
    using c1 c2 app H2 by simp
  moreover have "map_le m m2" using le1 le2 by (rule map_le_trans)
  moreover have "(\<Union>v \<in> set (Ref a # vs). refs_val v) \<subseteq> dom m2" using r2 a2 by auto
  moreover have "copy_inv h ?H2 m2 W" using inv2 H2 by simp
  ultimately show ?thesis unfolding elems_done_def by blast
qed

lemma none_done:
  assumes inv: "copy_inv h H m W" and y: "lookup H y = Some (OList ws)"
  shows "elems_done h H m W y ws [] k"
proof -
  from y have "y < length H" and "H ! y = OList ws"
    by (simp_all add: lookup_def split: if_splits)
  then have "H[y := OList (ws @ map (map_val m) [])] @ [] = H"
    using list_update_id [of H y] by simp
  moreover have "deepcopy_elems k H m y [] = Some (H, m)" by simp
  ultimately show ?thesis using inv unfolding elems_done_def
    by (metis empty_subsetI map_le_refl list.set(1) UN_empty)
qed

subsection \<open>Copying a tree\<close>

text \<open>
  With enough depth of recursion the copy of a tree returns and keeps the invariant, by
  induction on the tree in the store.
\<close>

lemma deepcopy_tree:
  "tree_at h a t fp \<Longrightarrow> copy_inv h H m W \<Longrightarrow> copy_fuel t \<le> k \<Longrightarrow> cell_copied h H m W a k"
  "trees_at h vs ts fp \<Longrightarrow> copy_inv h H m W \<Longrightarrow> y \<in> W \<Longrightarrow> length h \<le> y \<Longrightarrow>
     lookup H y = Some (OList ws) \<Longrightarrow> sum_list (map copy_fuel ts) \<le> k \<Longrightarrow>
     elems_done h H m W y ws vs k"
proof (induction arbitrary: H m W k and H m W k y ws rule: tree_at_trees_at.inducts)
  case (cpu_at h a cores mhz)
  then obtain j where "k = Suc j" using fuel_one [of k] by auto
  with cpu_at show ?case
    by (auto intro!: leaf_cell [where v = "OCpu cores mhz"] simp: copy_inv_lookup)
next
  case (memory_at h a mib)
  then obtain j where "k = Suc j" using fuel_one [of k] by auto
  with memory_at show ?case
    by (auto intro!: leaf_cell [where v = "OMemory mib"] simp: copy_inv_lookup)
next
  case (partition_at h a index gib role)
  then obtain j where "k = Suc j" using fuel_one [of k] by auto
  with partition_at show ?case
    by (auto intro!: leaf_cell [where v = "OPartition index gib role"] simp: copy_inv_lookup)
next
  case (disk_at h a gib l vs parts fp)
  from disk_at.prems(2) obtain j where k: "k = Suc (Suc j)" and j: "sum_list (map copy_fuel parts) \<le> j"
    using fuel_two [of "sum_list (map copy_fuel parts)" k] by auto
  have Ha: "lookup H a = Some (ODisk gib l)"
    using disk_at.prems(1) disk_at.hyps(1) by (rule copy_inv_lookup)
  have "cell_copied h H m W a (Suc (Suc j))"
  proof (rule inst_cell [where con = "ODisk gib" and l = l, OF disk_at.prems(1) disk_at.hyps(1)])
    show "cell_copied h H1 m1 W1 l (Suc j)" if "copy_inv h H1 m1 W1" for H1 m1 W1
      using that disk_at.hyps(2)
    proof (rule list_cell)
      show "elems_done h H2 m2 W2 y [] vs j"
        if "copy_inv h H2 m2 W2" "y \<in> W2" "length h \<le> y" "lookup H2 y = Some (OList [])"
        for H2 m2 W2 y
        using that j by (rule disk_at.IH)
    qed
    show "deepcopy (Suc (Suc j)) H m a = Some (H @ ODisk gib l' # zs, m', length H)"
      if "m a = None"
        "deepcopy (Suc j) (H @ [OBlank]) (m(a \<mapsto> length H)) l = Some (H @ OBlank # zs, m', l')"
      for zs m' l'
      using deepcopy_disk_step [of m a H gib l "Suc j" zs m' l'] that Ha by simp
  qed simp_all
  then show ?case using k by simp
next
  case (network_at h a title l vs hosts fp)
  from network_at.prems(2) obtain j where k: "k = Suc (Suc j)" and j: "sum_list (map copy_fuel hosts) \<le> j"
    using fuel_two [of "sum_list (map copy_fuel hosts)" k] by auto
  have Ha: "lookup H a = Some (ONetwork title l)"
    using network_at.prems(1) network_at.hyps(1) by (rule copy_inv_lookup)
  have "cell_copied h H m W a (Suc (Suc j))"
  proof (rule inst_cell [where con = "ONetwork title" and l = l, OF network_at.prems(1) network_at.hyps(1)])
    show "cell_copied h H1 m1 W1 l (Suc j)" if "copy_inv h H1 m1 W1" for H1 m1 W1
      using that network_at.hyps(2)
    proof (rule list_cell)
      show "elems_done h H2 m2 W2 y [] vs j"
        if "copy_inv h H2 m2 W2" "y \<in> W2" "length h \<le> y" "lookup H2 y = Some (OList [])"
        for H2 m2 W2 y
        using that j by (rule network_at.IH)
    qed
    show "deepcopy (Suc (Suc j)) H m a = Some (H @ ONetwork title l' # zs, m', length H)"
      if "m a = None"
        "deepcopy (Suc j) (H @ [OBlank]) (m(a \<mapsto> length H)) l = Some (H @ OBlank # zs, m', l')"
      for zs m' l'
      using deepcopy_network_step [of m a H title l "Suc j" zs m' l'] that Ha by simp
  qed simp_all
  then show ?case using k by simp
next
  case (host_at h a name la lh addrs vs hw fp)
  from host_at.prems(2) obtain j where k: "k = Suc (Suc j)" and j: "sum_list (map copy_fuel hw) \<le> j"
    using fuel_two [of "sum_list (map copy_fuel hw)" k] by auto
  have "cell_copied h H m W a (Suc (Suc j))"
    using host_at.prems(1) host_at.hyps(1)
  proof (rule host_cell)
    show "cell_copied h H1 m1 W1 la (Suc j)" if "copy_inv h H1 m1 W1" for H1 m1 W1
      using that host_at.hyps(2) by (rule list_cell) (rule strs_done)
    show "cell_copied h H1 m1 W1 lh (Suc j)" if "copy_inv h H1 m1 W1" for H1 m1 W1
      using that host_at.hyps(3)
    proof (rule list_cell)
      show "elems_done h H2 m2 W2 y [] vs j"
        if "copy_inv h H2 m2 W2" "y \<in> W2" "length h \<le> y" "lookup H2 y = Some (OList [])"
        for H2 m2 W2 y
        using that j by (rule host_at.IH)
    qed
  qed
  then show ?case using k by simp
next
  case (none_at h)
  then show ?case by (intro none_done)
next
  case (more_at h a t fp vs ts fps)
  show ?case
    using more_at.prems(1-4)
  proof (rule elem_done)
    show "cell_copied h H m W a k"
      using more_at.prems(1,5) by (intro more_at.IH(1)) simp_all
    show "elems_done h H1 m1 W y ws1 vs k"
      if "copy_inv h H1 m1 W" "lookup H1 y = Some (OList ws1)" for H1 m1 ws1
      using that more_at.prems(2,3,5) by (intro more_at.IH(2)) simp_all
  qed
qed

text \<open>
  When no copy is being filled in any more, the copy of the root of a tree is the root of
  the same tree, made of the copies of its objects.
\<close>

lemma copy_is_tree:
  "tree_at h a t fp \<Longrightarrow> copy_inv h H m {} \<Longrightarrow> m a = Some y \<Longrightarrow>
     tree_at H y t (map (\<lambda>x. the (m x)) fp) \<and> set fp \<subseteq> dom m"
  "trees_at h vs ts fp \<Longrightarrow> copy_inv h H m {} \<Longrightarrow> (\<Union>v \<in> set vs. refs_val v) \<subseteq> dom m \<Longrightarrow>
     trees_at H (map (map_val m) vs) ts (map (\<lambda>x. the (m x)) fp) \<and> set fp \<subseteq> dom m"
proof (induction arbitrary: y and rule: tree_at_trees_at.inducts)
  case (cpu_at h a cores mhz)
  from copy_inv_cell(1) [OF cpu_at.prems cpu_at.hyps] cpu_at.prems(2) show ?case
    by (auto intro: tree_at_trees_at.cpu_at)
next
  case (memory_at h a mib)
  from copy_inv_cell(1) [OF memory_at.prems memory_at.hyps] memory_at.prems(2) show ?case
    by (auto intro: tree_at_trees_at.memory_at)
next
  case (partition_at h a index gib role)
  from copy_inv_cell(1) [OF partition_at.prems partition_at.hyps] partition_at.prems(2) show ?case
    by (auto intro: tree_at_trees_at.partition_at)
next
  case (disk_at h a gib l vs parts fp)
  from copy_inv_cell [OF disk_at.prems disk_at.hyps(1)]
  obtain l' where y: "lookup H y = Some (ODisk gib l')" and l': "m l = Some l'"
    by auto
  from copy_inv_cell [OF disk_at.prems(1) l' disk_at.hyps(2)]
  have c: "lookup H l' = Some (OList (map (map_val m) vs))" and r: "(\<Union>v \<in> set vs. refs_val v) \<subseteq> dom m"
    by simp_all
  from disk_at.IH [OF disk_at.prems(1) r]
  have "trees_at H (map (map_val m) vs) parts (map (\<lambda>x. the (m x)) fp)" and "set fp \<subseteq> dom m"
    by simp_all
  with y c l' disk_at.prems(2) show ?case
    by (auto intro: tree_at_trees_at.disk_at)
next
  case (network_at h a title l vs hosts fp)
  from copy_inv_cell [OF network_at.prems network_at.hyps(1)]
  obtain l' where y: "lookup H y = Some (ONetwork title l')" and l': "m l = Some l'"
    by auto
  from copy_inv_cell [OF network_at.prems(1) l' network_at.hyps(2)]
  have c: "lookup H l' = Some (OList (map (map_val m) vs))" and r: "(\<Union>v \<in> set vs. refs_val v) \<subseteq> dom m"
    by simp_all
  from network_at.IH [OF network_at.prems(1) r]
  have "trees_at H (map (map_val m) vs) hosts (map (\<lambda>x. the (m x)) fp)" and "set fp \<subseteq> dom m"
    by simp_all
  with y c l' network_at.prems(2) show ?case
    by (auto intro: tree_at_trees_at.network_at)
next
  case (host_at h a name la lh addrs vs hw fp)
  from copy_inv_cell [OF host_at.prems host_at.hyps(1)]
  obtain la' lh' where y: "lookup H y = Some (OHost name la' lh')"
    and la': "m la = Some la'" and lh': "m lh = Some lh'"
    by auto
  from copy_inv_cell(1) [OF host_at.prems(1) la' host_at.hyps(2)]
  have ca: "lookup H la' = Some (OList (map Str addrs))" by simp
  from copy_inv_cell [OF host_at.prems(1) lh' host_at.hyps(3)]
  have c: "lookup H lh' = Some (OList (map (map_val m) vs))" and r: "(\<Union>v \<in> set vs. refs_val v) \<subseteq> dom m"
    by simp_all
  from host_at.IH [OF host_at.prems(1) r]
  have "trees_at H (map (map_val m) vs) hw (map (\<lambda>x. the (m x)) fp)" and "set fp \<subseteq> dom m"
    by simp_all
  with y ca c la' lh' host_at.prems(2) show ?case
    by (auto intro: tree_at_trees_at.host_at)
next
  case (none_at h)
  show ?case by (simp add: tree_at_trees_at.none_at)
next
  case (more_at h a t fp vs ts fps)
  from more_at.prems(2) obtain a' where a': "m a = Some a'" by auto
  from more_at.IH(1) [OF more_at.prems(1) a']
  have "tree_at H a' t (map (\<lambda>x. the (m x)) fp)" and "set fp \<subseteq> dom m" by simp_all
  moreover from more_at.IH(2) [OF more_at.prems(1)] more_at.prems(2)
  have "trees_at H (map (map_val m) vs) ts (map (\<lambda>x. the (m x)) fps)" and "set fps \<subseteq> dom m" by simp_all
  ultimately show ?case using a'
    by (auto intro: tree_at_trees_at.more_at)
qed

lemma clone_tree:
  assumes "tree_at h a t fp" "copy_fuel t \<le> k"
  shows "\<exists>zs fp'. clone k h a = Some (h @ zs, length h)
      \<and> tree_at (h @ zs) (length h) t fp'
      \<and> set fp' \<subseteq> {length h..<length h + length zs}"
proof -
  have "copy_inv h h Map.empty {}" unfolding copy_inv_def by simp
  with assms(1) have "cell_copied h h Map.empty {} a k"
    using assms(2) by (rule deepcopy_tree(1))
  then obtain zs m where c: "deepcopy k h Map.empty a = Some (h @ zs, m, length h)"
    and a: "m a = Some (length h)" and inv: "copy_inv h (h @ zs) m {}"
    unfolding cell_copied_def by auto
  from copy_is_tree(1) [OF assms(1) inv a]
  have t: "tree_at (h @ zs) (length h) t (map (\<lambda>x. the (m x)) fp)" and d: "set fp \<subseteq> dom m"
    by simp_all
  have "set (map (\<lambda>x. the (m x)) fp) \<subseteq> {length h..<length h + length zs}"
  proof
    fix y assume "y \<in> set (map (\<lambda>x. the (m x)) fp)"
    then obtain x where "x \<in> set fp" "y = the (m x)" by auto
    with d have "m x = Some y" by auto
    with inv show "y \<in> {length h..<length h + length zs}"
      unfolding copy_inv_def by fastforce
  qed
  moreover have "clone k h a = Some (h @ zs, length h)" using c by (simp add: clone_def)
  ultimately show ?thesis using t by blast
qed

lemma demo_tree_at: "tree_at demo_heap 0 demo_tree [0, 1, 2, 3, 4, 5]"
proof -
  have "tree_at demo_heap 5 (Cpu 4 2500) [5]"
    by (rule cpu_at) (simp add: demo_heap_def lookup_def)
  then have "trees_at demo_heap [Ref 5] [Cpu 4 2500] ([5] @ [])"
    by (intro more_at none_at)
  then have "tree_at demo_heap 2 (Host ''server1'' [''192.168.1.1''] [Cpu 4 2500]) (2 # 3 # 4 # [5] @ [])"
    by (intro host_at [where vs = "[Ref 5]"]) (simp_all add: demo_heap_def lookup_def)
  then have "trees_at demo_heap [Ref 2] [Host ''server1'' [''192.168.1.1''] [Cpu 4 2500]]
      ((2 # 3 # 4 # [5] @ []) @ [])"
    by (intro more_at none_at)
  then have "tree_at demo_heap 0 demo_tree (0 # 1 # (2 # 3 # 4 # [5] @ []) @ [])"
    unfolding demo_tree_def
    by (intro network_at [where vs = "[Ref 2]"]) (simp_all add: demo_heap_def lookup_def)
  then show ?thesis by simp
qed

lemma demo_fuel: "copy_fuel demo_tree \<le> 5"
  by (simp add: demo_tree_def)

lemma demo_clone: "clone 5 demo_heap 0 = Some (demo_copy, 6)"
  by (simp add: clone_def demo_copy_def demo_heap_def eval_nat_numeral lookup_def list_append_def)

subsection \<open>The clone is independent of the original\<close>

text \<open>
  C8. Let the store hold a tree at \<open>a\<close>, and let the depth of recursion suffice. Then
  \<open>clone\<close> returns; it only allocates, so the original is the tree it was; the clone is
  the same tree at a new address; and no instance or list of the original is one of the
  clone. Overwriting any object of the clone with anything, such as the host whose name is
  assigned to, leaves the original tree and every one of its objects as they were, and
  overwriting any object of the original leaves the clone and every one of its objects as
  they were. More generally, whatever is done to the store, the original is unchanged as
  long as its own objects are, and so is the clone. (Integers and strings are values
  inside the objects, so they change only with the object that holds them.)
\<close>

theorem clone_independent:
  assumes "tree_at h a t fp" "copy_fuel t \<le> k"
  shows "\<exists>zs fp'. clone k h a = Some (h @ zs, length h)
      \<and> tree_at (h @ zs) a t fp
      \<and> tree_at (h @ zs) (length h) t fp'
      \<and> set fp \<inter> set fp' = {}
      \<and> (\<forall>x \<in> set fp'. \<forall>v. tree_at ((h @ zs)[x := v]) a t fp
            \<and> (\<forall>c \<in> set fp. lookup ((h @ zs)[x := v]) c = lookup h c))
      \<and> (\<forall>x \<in> set fp. \<forall>v. tree_at ((h @ zs)[x := v]) (length h) t fp'
            \<and> (\<forall>c \<in> set fp'. lookup ((h @ zs)[x := v]) c = lookup (h @ zs) c))
      \<and> (\<forall>h''. (\<forall>c \<in> set fp. lookup h'' c = lookup h c) \<longrightarrow> tree_at h'' a t fp)
      \<and> (\<forall>h''. (\<forall>c \<in> set fp'. lookup h'' c = lookup (h @ zs) c) \<longrightarrow> tree_at h'' (length h) t fp')"
proof -
  from clone_tree [OF assms] obtain zs fp' where
    c: "clone k h a = Some (h @ zs, length h)" and t': "tree_at (h @ zs) (length h) t fp'"
    and s: "set fp' \<subseteq> {length h..<length h + length zs}"
    by blast
  let ?h' = "h @ zs"
  have old: "\<forall>x \<in> set fp. x < length h" using tree_at_allocated(1) [OF assms(1)] by blast
  have t: "tree_at ?h' a t fp" using assms(1) by (rule tree_at_append)
  have disj: "set fp \<inter> set fp' = {}" using old s by fastforce
  have keep: "\<forall>c \<in> set fp. lookup ?h' c = lookup h c"
    using old by (simp add: lookup_append_old)
  have N: "tree_at h'' a t fp" if "\<forall>c \<in> set fp. lookup h'' c = lookup h c" for h''
    using assms(1) that by (rule tree_at_frame(1))
  have M: "tree_at h'' (length h) t fp'" if "\<forall>c \<in> set fp'. lookup h'' c = lookup ?h' c" for h''
    using t' that by (rule tree_at_frame(1))
  have wN: "\<forall>c \<in> set fp. lookup (?h'[x := v]) c = lookup h c" if "x \<in> set fp'" for x v
    using that disj keep by (auto simp: lookup_update)
  have wM: "\<forall>c \<in> set fp'. lookup (?h'[x := v]) c = lookup ?h' c" if "x \<in> set fp" for x v
    using that disj by (auto simp: lookup_update)
  show ?thesis
    using c t t' disj N M wN wM by blast
qed

theorem clone_independent_witness:
  "clone 5 demo_heap 0 = Some (demo_copy, 6)
   \<and> lookup (demo_copy[8 := OHost ''edited'' 9 10]) 8 = Some (OHost ''edited'' 9 10)
   \<and> lookup (demo_copy[8 := OHost ''edited'' 9 10]) 2 = Some (OHost ''server1'' 3 4)
   \<and> tree_at (demo_copy[8 := OHost ''edited'' 9 10]) 0 demo_tree [0, 1, 2, 3, 4, 5]"
proof -
  from clone_independent [OF demo_tree_at demo_fuel]
  obtain zs fp' where c: "clone 5 demo_heap 0 = Some (demo_heap @ zs, length demo_heap)"
    and N: "\<forall>h''. (\<forall>c \<in> set [0, 1, 2, 3, 4, 5]. lookup h'' c = lookup demo_heap c) \<longrightarrow>
          tree_at h'' 0 demo_tree [0, 1, 2, 3, 4, 5]"
    by blast
  let ?h = "demo_copy[8 := OHost ''edited'' 9 10]"
  have "\<forall>c \<in> set [0, 1, 2, 3, 4, 5]. lookup ?h c = lookup demo_heap c"
    by (simp add: demo_copy_def demo_heap_def lookup_def)
  with N have "tree_at ?h 0 demo_tree [0, 1, 2, 3, 4, 5]" by blast
  moreover have "lookup ?h 8 = Some (OHost ''edited'' 9 10)"
    and "lookup ?h 2 = Some (OHost ''server1'' 3 4)"
    by (simp_all add: demo_copy_def demo_heap_def lookup_def)
  ultimately show ?thesis using demo_clone by simp
qed

subsection \<open>The clone draws as the original\<close>

text \<open>
  C9. Under the same conditions, drawing the clone gives the very text that drawing the
  original gave before the clone was made, and gives after it: \<open>draw\<close> of the tree.
\<close>

theorem clone_draw_identical:
  assumes "tree_at h a t fp" "copy_fuel t \<le> k"
  shows "\<exists>h' a'. clone k h a = Some (h', a')
      \<and> (\<forall>s. draws h' a' s = draws h a s)
      \<and> (\<forall>s. draws h' a' s = (s = draw t))
      \<and> (\<forall>s. draws h' a s = (s = draw t))"
proof -
  from clone_tree [OF assms] obtain zs fp' where
    c: "clone k h a = Some (h @ zs, length h)" and t': "tree_at (h @ zs) (length h) t fp'"
    by blast
  have "tree_at (h @ zs) a t fp" using assms(1) by (rule tree_at_append)
  with c t' assms(1) show ?thesis by (simp add: draws_tree)
qed

theorem clone_draw_identical_witness:
  "clone 5 demo_heap 0 = Some (demo_copy, 6)
   \<and> draws demo_heap 0 (draw demo_tree)
   \<and> draws demo_copy 6 (draw demo_tree)
   \<and> draws demo_copy 0 (draw demo_tree)
   \<and> draw demo_tree = ''Network: net'' @ [CHR 0x0A] @ CHR 0x5C # ''-Host: server1'' @ [CHR 0x0A]
        @ ''  +-192.168.1.1'' @ [CHR 0x0A] @ ''  '' @ CHR 0x5C # ''-CPU, 4 cores @ 2500MHz'' @ [CHR 0x0A]"
proof -
  from clone_draw_identical [OF demo_tree_at demo_fuel]
  obtain h' a' where c: "clone 5 demo_heap 0 = Some (h', a')"
    and same: "\<forall>s. draws h' a' s = draws demo_heap 0 s"
    and copy: "\<forall>s. draws h' a' s = (s = draw demo_tree)"
    and orig: "\<forall>s. draws h' 0 s = (s = draw demo_tree)"
    by blast
  from c demo_clone have "h' = demo_copy" and "a' = 6" by simp_all
  with same copy orig have "draws demo_heap 0 (draw demo_tree)"
    and "draws demo_copy 6 (draw demo_tree)" and "draws demo_copy 0 (draw demo_tree)"
    by simp_all
  moreover have "draw demo_tree = ''Network: net'' @ [CHR 0x0A] @ CHR 0x5C # ''-Host: server1'' @ [CHR 0x0A]
        @ ''  +-192.168.1.1'' @ [CHR 0x0A] @ ''  '' @ CHR 0x5C # ''-CPU, 4 cores @ 2500MHz'' @ [CHR 0x0A]"
    by (simp add: demo_tree_def draw_def eval_simps)
  ultimately show ?thesis using demo_clone by simp
qed

end
